theory Spec2Isabelle
  imports Main "HOL-Library.Word" "HOL-Library.Multiset" "HOL-Library.Sublist"
begin

section \<open>The program\<close>

text \<open>
  The program reads a line of integers and a selector, sorts the integers with
  \<^verbatim>\<open>BubbleSort::sort\<close> or \<^verbatim>\<open>QuickSort::sort\<close> and prints them. This part holds the
  embedding of \<^verbatim>\<open>main.cpp\<close>: the two sorts with their private helpers and \<^verbatim>\<open>main\<close>. The
  classes that only forward to the two sorts are not part of it.
\<close>

subsection \<open>Machine integers and vector accesses\<close>

text \<open>
  The program sorts a \<^verbatim>\<open>std::vector<int>\<close>. The elements are only copied and compared,
  never computed with, so an element is modelled by its value, an \<^typ>\<open>int\<close>.
  The \<^verbatim>\<open>int\<close> variables that serve as indices in \<^verbatim>\<open>QuickSort\<close> (\<^verbatim>\<open>low\<close>, \<^verbatim>\<open>high\<close>,
  \<^verbatim>\<open>i\<close>, \<^verbatim>\<open>j\<close>, \<^verbatim>\<open>pi\<close>) are 32-bit words read as two's complement: \<open>+\<close> and \<open>-\<close> wrap
  (the result the hardware gives where C++ leaves signed overflow undefined) and
  \<open><s\<close> is the signed comparison. The \<^verbatim>\<open>size_t\<close> variables of \<^verbatim>\<open>BubbleSort\<close> are
  naturals below the vector's size, which always fits \<^verbatim>\<open>size_t\<close>; the one operation on
  them that can leave the range, the unsigned subtraction, has its wrap-around modulo
  \<open>2 ^ 64\<close> written out in \<open>size_sub\<close>.
\<close>

type_synonym cint = "32 word"

type_synonym vec = "int list"

datatype error = OutOfBounds

definition size_sub :: "nat \<Rightarrow> nat \<Rightarrow> nat" where
  "size_sub a b = (if b \<le> a then a - b else a + 2 ^ 64 - b)"

text \<open>
  \<^verbatim>\<open>data[k]\<close> with an \<^verbatim>\<open>int\<close> index converts \<open>k\<close> to the unsigned \<^verbatim>\<open>size_type\<close>. A
  negative \<open>k\<close> becomes at least \<open>2 ^ 64 - 2 ^ 31\<close>, more than any vector of \<^verbatim>\<open>int\<close> can
  hold, so the access is inside the vector exactly when \<open>0 \<le> k < size\<close>.
\<close>

definition in_bounds :: "vec \<Rightarrow> cint \<Rightarrow> bool" where
  "in_bounds data k \<longleftrightarrow> 0 \<le> sint k \<and> nat (sint k) < length data"

definition idx :: "cint \<Rightarrow> nat" where
  "idx k = nat (sint k)"

text \<open>\<^verbatim>\<open>std::swap(data[a], data[b])\<close> on two positions inside the vector.\<close>

definition swap :: "vec \<Rightarrow> nat \<Rightarrow> nat \<Rightarrow> vec" where
  "swap data a b = data[a := data ! b, b := data ! a]"

subsection \<open>QuickSort\<close>

text \<open>
  The \<^verbatim>\<open>for\<close> loop of \<^verbatim>\<open>QuickSort::partition\<close>, from the current \<open>j\<close>; the state is the
  vector and the boundary index \<open>i\<close>. An access outside the vector ends the run with
  \<open>OutOfBounds\<close>.
\<close>

function partition_loop :: "vec \<Rightarrow> int \<Rightarrow> cint \<Rightarrow> cint \<Rightarrow> cint \<Rightarrow> error + (vec \<times> cint)" where
  "partition_loop data pivot high i j =
     (if j <s high then
        (if in_bounds data j then
           (if data ! idx j < pivot then
              (if in_bounds data (i + 1)
               then partition_loop (swap data (idx (i + 1)) (idx j)) pivot high (i + 1) (j + 1)
               else Inl OutOfBounds)
            else partition_loop data pivot high i (j + 1))
         else Inl OutOfBounds)
      else Inr (data, i))"
  by pat_completeness auto

text \<open>\<^verbatim>\<open>QuickSort::partition\<close>: the pivot read, the loop, the final swap, the returned index.\<close>

definition partition :: "vec \<Rightarrow> cint \<Rightarrow> cint \<Rightarrow> error + (vec \<times> cint)" where
  "partition data low high =
     (if in_bounds data high then
        (case partition_loop data (data ! idx high) high (low - 1) low of
           Inl e \<Rightarrow> Inl e
         | Inr (data', i) \<Rightarrow>
             (if in_bounds data' (i + 1) \<and> in_bounds data' high
              then Inr (swap data' (idx (i + 1)) (idx high), i + 1)
              else Inl OutOfBounds))
      else Inl OutOfBounds)"

text \<open>
  \<^verbatim>\<open>QuickSort::quicksort\<close>. The second recursive call works on the vector that the first
  one leaves; an error of the partition step or of a recursive call ends the run.
\<close>

function quicksort :: "vec \<Rightarrow> cint \<Rightarrow> cint \<Rightarrow> error + vec" where
  "quicksort data low high =
     (if low <s high then
        (case partition data low high of
           Inl e \<Rightarrow> Inl e
         | Inr (data1, pi) \<Rightarrow>
             (case quicksort data1 low (pi - 1) of
                Inl e \<Rightarrow> Inl e
              | Inr data2 \<Rightarrow> quicksort data2 (pi + 1) high))
      else Inr data)"
  by pat_completeness auto

text \<open>
  \<^verbatim>\<open>QuickSort::sort\<close>: \<^verbatim>\<open>data.size() - 1\<close> is computed in \<^verbatim>\<open>size_t\<close> and then converted to
  the \<^verbatim>\<open>int\<close> parameter \<^verbatim>\<open>high\<close>, which keeps its low 32 bits.
\<close>

definition QuickSort_sort :: "vec \<Rightarrow> error + vec" where
  "QuickSort_sort data = quicksort data 0 (of_nat (size_sub (length data) 1))"

subsection \<open>BubbleSort\<close>

text \<open>
  The loops of \<^verbatim>\<open>BubbleSort::sort\<close> carry, next to the vector, a log of what they do: the
  start of each pass of the outer loop, each evaluation of \<^verbatim>\<open>data[j] > data[j + 1]\<close> with
  the two values read, and each call of \<^verbatim>\<open>std::swap\<close>. The log is not program state; it
  makes the number of passes and the pairs scanned visible in the result.
\<close>

datatype event = is_Pass: Pass nat | is_Compare: Compare nat int int | is_Swap: Swap nat

text \<open>
  The inner loop, from the current \<open>j\<close>. Its bound \<^verbatim>\<open>data.size() - i - 1\<close> is computed in
  \<^verbatim>\<open>size_t\<close> at every test.
\<close>

function bubble_inner :: "vec \<Rightarrow> event list \<Rightarrow> nat \<Rightarrow> nat \<Rightarrow> error + (vec \<times> event list)" where
  "bubble_inner data log i j =
     (if j < size_sub (size_sub (length data) i) 1 then
        (if j < length data \<and> j + 1 < length data then
           (if data ! j > data ! (j + 1)
            then bubble_inner (swap data j (j + 1))
                   (log @ [Compare j (data ! j) (data ! (j + 1)), Swap j]) i (j + 1)
            else bubble_inner data (log @ [Compare j (data ! j) (data ! (j + 1))]) i (j + 1))
         else Inl OutOfBounds)
      else Inr (data, log))"
  by pat_completeness auto

termination bubble_inner
  by (relation "measure (\<lambda>(data, log, i, j). size_sub (size_sub (length data) i) 1 - j)")
    (auto simp: swap_def)

text \<open>
  The outer loop, from the current \<open>i\<close>, and \<^verbatim>\<open>BubbleSort::sort\<close> itself, with and without
  the log.
\<close>

function bubble_outer :: "vec \<Rightarrow> event list \<Rightarrow> nat \<Rightarrow> error + (vec \<times> event list)" where
  "bubble_outer data log i =
     (if i < length data then
        (case bubble_inner data (log @ [Pass i]) i 0 of
           Inl e \<Rightarrow> Inl e
         | Inr (data', log') \<Rightarrow> bubble_outer data' log' (i + 1))
      else Inr (data, log))"
  by pat_completeness auto

definition BubbleSort_trace :: "vec \<Rightarrow> error + (vec \<times> event list)" where
  "BubbleSort_trace data = bubble_outer data [] 0"

definition BubbleSort_sort :: "vec \<Rightarrow> error + vec" where
  "BubbleSort_sort data = map_sum id fst (BubbleSort_trace data)"

subsection \<open>The runner\<close>

text \<open>
  \<^verbatim>\<open>iss >> number\<close> is the formatted extraction of the C++ standard library for \<^verbatim>\<open>int\<close>, on
  a stream in its initial state (classic locale, \<^verbatim>\<open>skipws\<close> and \<^verbatim>\<open>dec\<close> set): leading
  white space is skipped; then one optional sign and the longest run of decimal digits
  are read; the extraction fails when there is no digit or when the value does not fit
  \<^verbatim>\<open>int\<close>. \<open>extract_int\<close> returns the value and the rest of the stream, or \<open>None\<close> for
  a failed extraction.
\<close>

definition isspace :: "char \<Rightarrow> bool" where
  "isspace c \<longleftrightarrow> c \<in> set [CHR '' '', CHR 0x09, CHR 0x0A, CHR 0x0B, CHR 0x0C, CHR 0x0D]"

definition isdigit :: "char \<Rightarrow> bool" where
  "isdigit c \<longleftrightarrow> c \<in> set ''0123456789''"

definition digit_value :: "char \<Rightarrow> int" where
  "digit_value c = int (of_char c) - 48"

definition digits_value :: "string \<Rightarrow> int" where
  "digits_value ds = foldl (\<lambda>acc c. 10 * acc + digit_value c) 0 ds"

definition fits_int :: "int \<Rightarrow> bool" where
  "fits_int v \<longleftrightarrow> - (2 ^ 31) \<le> v \<and> v \<le> 2 ^ 31 - 1"

definition extract_int :: "string \<Rightarrow> (int \<times> string) option" where
  "extract_int s =
     (let s1 = dropWhile isspace s;
          neg = (s1 \<noteq> [] \<and> hd s1 = CHR ''-'');
          s2 = (if s1 \<noteq> [] \<and> (hd s1 = CHR ''-'' \<or> hd s1 = CHR ''+'') then tl s1 else s1);
          ds = takeWhile isdigit s2;
          v = (if neg then - digits_value ds else digits_value ds)
      in if ds = [] \<or> \<not> fits_int v then None else Some (v, dropWhile isdigit s2))"

text \<open>The loop \<^verbatim>\<open>while (iss >> number) data.push_back(number)\<close>.\<close>

function parse_line :: "string \<Rightarrow> vec" where
  "parse_line s =
     (case extract_int s of
        None \<Rightarrow> []
      | Some (number, rest) \<Rightarrow> number # parse_line rest)"
  by pat_completeness auto

text \<open>\<^verbatim>\<open>std::cout << num\<close> writes an integer in decimal, with a minus sign when negative.\<close>

definition digit_char :: "nat \<Rightarrow> char" where
  "digit_char d = ''0123456789'' ! d"

function show_nat :: "nat \<Rightarrow> string" where
  "show_nat n = (if n < 10 then [digit_char n] else show_nat (n div 10) @ [digit_char (n mod 10)])"
  by pat_completeness auto

termination show_nat
  by (relation "measure id") auto

definition show_int :: "int \<Rightarrow> string" where
  "show_int v = (if v < 0 then CHR ''-'' # show_nat (nat (- v)) else show_nat (nat v))"

text \<open>The loop \<^verbatim>\<open>for (int num : data) std::cout << num << " "\<close>.\<close>

definition print_data :: "vec \<Rightarrow> string" where
  "print_data data = concat (map (\<lambda>num. show_int num @ '' '') data)"

text \<open>
  A run of \<^verbatim>\<open>main\<close> is determined by the line that \<^verbatim>\<open>std::getline\<close> reads, the value of
  \<^verbatim>\<open>choice\<close> after \<^verbatim>\<open>std::cin >> choice\<close> and the measured duration in microseconds. Its
  outcome is the text written to standard output, the exit status and the vector at the
  end; a sort that reads or writes outside the vector ends the run with the error.
\<close>

record outcome =
  stdout :: string
  exit_status :: int
  final_data :: vec

definition prompts :: string where
  "prompts = ''Enter numbers to sort (separated by spaces): '' @
             ''Choose sorting algorithm: 1 for Bubble Sort, 2 for Quick Sort: ''"

definition report :: "vec \<Rightarrow> int \<Rightarrow> outcome" where
  "report data duration =
     \<lparr>stdout = prompts @ ''Sorted Data: '' @ print_data data @ [CHR 0x0A] @
               ''Time taken: '' @ show_int duration @ '' microseconds'' @ [CHR 0x0A],
      exit_status = 0,
      final_data = data\<rparr>"

definition main :: "string \<Rightarrow> int \<Rightarrow> int \<Rightarrow> error + outcome" where
  "main input choice duration =
     (let data = parse_line input
      in if choice = 1 then
           (case BubbleSort_sort data of Inl e \<Rightarrow> Inl e | Inr data' \<Rightarrow> Inr (report data' duration))
         else if choice = 2 then
           (case QuickSort_sort data of Inl e \<Rightarrow> Inl e | Inr data' \<Rightarrow> Inr (report data' duration))
         else
           Inr \<lparr>stdout = prompts @ ''Invalid choice.'' @ [CHR 0x0A],
                exit_status = 1,
                final_data = data\<rparr>)"

section \<open>The specification's wording\<close>

text \<open>
  The specification describes the partition step, the passes of the bubble sort and the
  parse of the input line in words. The definitions of this part follow those words, not
  the code; the theorems compare them with the program.
\<close>

subsection \<open>The partition step\<close>

text \<open>
  ``Choose the element at \<open>high\<close> as pivot. Scan \<open>low..high - 1\<close>; maintain a boundary index
  \<open>i\<close> (initialized one below \<open>low\<close>). For each scanned element strictly less than the
  pivot, advance \<open>i\<close> and swap it into position \<open>i\<close>. After the scan, swap the pivot into
  position \<open>i + 1\<close>. Return \<open>i + 1\<close>.'' \<open>scan_step\<close> is the treatment of one scanned
  position.
\<close>

definition scan_step :: "int \<Rightarrow> nat \<Rightarrow> vec \<times> int \<Rightarrow> vec \<times> int" where
  "scan_step pivot j s =
     (case s of (data, i) \<Rightarrow>
        if data ! j < pivot then (swap data (nat (i + 1)) j, i + 1) else (data, i))"

definition partition_spec :: "vec \<Rightarrow> nat \<Rightarrow> nat \<Rightarrow> vec \<times> nat" where
  "partition_spec data low high =
     (case fold (scan_step (data ! high)) [low..<high] (data, int low - 1) of
        (data', i) \<Rightarrow> (swap data' (nat (i + 1)) high, nat (i + 1)))"

subsection \<open>The passes\<close>

text \<open>
  ``For each pass \<open>i\<close> from \<open>0\<close> to \<open>length - 1\<close>, scan adjacent pairs in the unsorted prefix
  \<open>[0, length - i - 1)\<close>, swapping any out-of-order pair''; a pair is out of order when
  its left element is greater than its right one. \<open>pass_step\<close> is the treatment of the
  pair at \<open>j\<close>, \<open>j + 1\<close>, \<open>bubble_pass\<close> is pass \<open>i\<close>; both write the log of the program.
\<close>

definition pass_step :: "nat \<Rightarrow> vec \<times> event list \<Rightarrow> vec \<times> event list" where
  "pass_step j s =
     (case s of (d, log) \<Rightarrow>
        if d ! j > d ! (j + 1)
        then (swap d j (j + 1), log @ [Compare j (d ! j) (d ! (j + 1)), Swap j])
        else (d, log @ [Compare j (d ! j) (d ! (j + 1))]))"

definition bubble_pass :: "nat \<Rightarrow> nat \<Rightarrow> vec \<times> event list \<Rightarrow> vec \<times> event list" where
  "bubble_pass n i s =
     (case s of (d, log) \<Rightarrow> fold pass_step [0..<n - i - 1] (d, log @ [Pass i]))"

definition bubble_spec :: "vec \<Rightarrow> vec \<times> event list" where
  "bubble_spec data = fold (bubble_pass (length data)) [0..<length data] (data, [])"

text \<open>
  In a well-formed log every \<open>Swap j\<close> comes right after a \<open>Compare j a b\<close> with
  \<open>a > b\<close>, and every such comparison is followed by its swap. \<open>log_ok\<close> reads a log
  from the left; its first argument is the swap that a comparison just read calls for.
\<close>

fun log_ok :: "nat option \<Rightarrow> event list \<Rightarrow> bool" where
  "log_ok p [] = (p = None)"
| "log_ok p (Pass i # es) = (p = None \<and> log_ok None es)"
| "log_ok p (Compare j a b # es) = (p = None \<and> log_ok (if a > b then Some j else None) es)"
| "log_ok p (Swap j # es) = (p = Some j \<and> log_ok None es)"

definition swaps_on_greater :: "event list \<Rightarrow> bool" where
  "swaps_on_greater log = log_ok None log"

text \<open>The positions \<open>j\<close> of the comparisons of a log, in order.\<close>

fun compared :: "event list \<Rightarrow> nat list" where
  "compared [] = []"
| "compared (Pass i # es) = compared es"
| "compared (Compare j a b # es) = j # compared es"
| "compared (Swap j # es) = compared es"

subsection \<open>The tokens of a line\<close>

text \<open>
  The specification describes the parse on white-space separated tokens: the parsed
  sequence is the values of the longest prefix of tokens that are valid integers. A
  token is a maximal run of characters that are not white space; it is a valid integer
  when it is an optional sign followed by decimal digits only, at least one, and its
  value fits \<^verbatim>\<open>int\<close>.
\<close>

function tokens :: "string \<Rightarrow> string list" where
  "tokens s =
     (let s1 = dropWhile isspace s
      in if s1 = [] then []
         else takeWhile (\<lambda>c. \<not> isspace c) s1 # tokens (dropWhile (\<lambda>c. \<not> isspace c) s1))"
  by pat_completeness auto

definition unsigned_part :: "string \<Rightarrow> string" where
  "unsigned_part t = (if t \<noteq> [] \<and> (hd t = CHR ''-'' \<or> hd t = CHR ''+'') then tl t else t)"

definition token_value :: "string \<Rightarrow> int" where
  "token_value t =
     (if t \<noteq> [] \<and> hd t = CHR ''-'' then - digits_value (unsigned_part t)
      else digits_value (unsigned_part t))"

definition valid_integer :: "string \<Rightarrow> bool" where
  "valid_integer t \<longleftrightarrow>
     unsigned_part t \<noteq> [] \<and> list_all isdigit (unsigned_part t) \<and> fits_int (token_value t)"

definition numeric_prefix :: "string \<Rightarrow> vec" where
  "numeric_prefix line = map token_value (takeWhile valid_integer (tokens line))"

section \<open>Invariants\<close>

text \<open>
  The state of the scan of the partition step after the positions \<open>low..h - 1\<close>, for
  pivot \<open>p\<close>: a permutation of the vector, with the elements less than the pivot at
  \<open>low..i\<close>, the others at \<open>i + 1..h - 1\<close>, and nothing changed outside \<open>low..h - 1\<close>.
\<close>

definition scan_inv :: "vec \<Rightarrow> int \<Rightarrow> nat \<Rightarrow> nat \<Rightarrow> vec \<times> int \<Rightarrow> bool" where
  "scan_inv data p low h s =
     (case s of (d, i) \<Rightarrow>
        length d = length data \<and> mset d = mset data \<and> int low - 1 \<le> i \<and> i < int h \<and>
        (\<forall>k. low \<le> k \<and> int k \<le> i \<longrightarrow> d ! k < p) \<and>
        (\<forall>k. i < int k \<and> k < h \<longrightarrow> p \<le> d ! k) \<and>
        (\<forall>k. k < low \<or> h \<le> k \<longrightarrow> d ! k = data ! k))"

text \<open>
  \<open>unchanged_outside d d' l e\<close>: \<open>d'\<close> has the size of \<open>d\<close> and its elements outside the
  positions \<open>l..e - 1\<close>; \<open>sorted_range d l e\<close>: \<open>d\<close> is in non-descending order on the positions
  \<open>l..e - 1\<close>.
\<close>

definition unchanged_outside :: "vec \<Rightarrow> vec \<Rightarrow> nat \<Rightarrow> nat \<Rightarrow> bool" where
  "unchanged_outside d d' l e \<longleftrightarrow>
     length d' = length d \<and> (\<forall>k. k < length d \<and> (k < l \<or> e \<le> k) \<longrightarrow> d' ! k = d ! k)"

definition sorted_range :: "vec \<Rightarrow> nat \<Rightarrow> nat \<Rightarrow> bool" where
  "sorted_range d l e \<longleftrightarrow> (\<forall>a b. l \<le> a \<and> a \<le> b \<and> b < e \<longrightarrow> d ! a \<le> d ! b)"

text \<open>
  The vector after \<open>i\<close> passes of the bubble sort: a permutation of the input whose last
  \<open>i\<close> elements are in order and not less than any element before them.
\<close>

definition passes_inv :: "vec \<Rightarrow> nat \<Rightarrow> vec \<Rightarrow> bool" where
  "passes_inv data i d \<longleftrightarrow>
     length d = length data \<and> mset d = mset data \<and>
     sorted_range d (length data - i) (length data) \<and>
     (\<forall>a b. a < length data - i \<and> length data - i \<le> b \<and> b < length data \<longrightarrow> d ! a \<le> d ! b)"

text \<open>
  The value of the integer that an extraction reads at the start of a string without
  leading white space.
\<close>

definition literal_value :: "string \<Rightarrow> int" where
  "literal_value s =
     (if hd s = CHR ''-'' then - digits_value (takeWhile isdigit (unsigned_part s))
      else digits_value (takeWhile isdigit (unsigned_part s)))"

section \<open>Termination, refinement and correctness\<close>

subsection \<open>The partition step\<close>

lemma sint_succ: "j <s (high :: cint) \<Longrightarrow> sint (j + 1) = sint j + 1"
proof -
  assume "j <s high"
  then have lt: "sint j < sint high" by (simp add: word_sless_alt)
  have "sint high < 2 ^ (LENGTH(32) - 1)" by (rule sint_lt)
  then have ub: "sint j + 1 < 2 ^ 31" using lt by simp
  have "- (2 ^ (LENGTH(32) - 1)) \<le> sint j" by (rule sint_ge)
  then have lb: "- (2 ^ 31) \<le> sint j + 1" by simp
  have "sint (j + 1) = signed_take_bit (LENGTH(32) - 1) (sint j + sint (1 :: cint))"
    by (rule sint_word_ariths)
  also have "\<dots> = signed_take_bit 31 (sint j + 1)" by simp
  also have "\<dots> = sint j + 1"
    using lb ub by (simp add: signed_take_bit_int_eq_self)
  finally show ?thesis .
qed

termination partition_loop
proof (relation "measure (\<lambda>(data, pivot, high, i, j). nat (sint high - sint j))")
  show "wf (measure (\<lambda>(data, pivot, high, i, j). nat (sint high - sint j)))" by simp
next
  fix data :: vec and pivot :: int and high i j :: cint
  assume "j <s high"
  then show "((swap data (idx (i + 1)) (idx j), pivot, high, i + 1, j + 1), (data, pivot, high, i, j))
      \<in> measure (\<lambda>(data, pivot, high, i, j). nat (sint high - sint j))"
    using sint_succ [of j high] by (simp add: word_sless_alt)
next
  fix data :: vec and pivot :: int and high i j :: cint
  assume "j <s high"
  then show "((data, pivot, high, i, j + 1), (data, pivot, high, i, j))
      \<in> measure (\<lambda>(data, pivot, high, i, j). nat (sint high - sint j))"
    using sint_succ [of j high] by (simp add: word_sless_alt)
qed

declare partition_loop.simps [simp del]

lemma length_swap [simp]: "length (swap data a b) = length data"
  by (simp add: swap_def)

lemma mset_swap_vec: "a < length data \<Longrightarrow> b < length data \<Longrightarrow> mset (swap data a b) = mset data"
  by (simp add: swap_def mset_swap)

lemma nth_swap:
  "a < length data \<Longrightarrow> b < length data \<Longrightarrow> k < length data \<Longrightarrow>
   swap data a b ! k = (if k = b then data ! a else if k = a then data ! b else data ! k)"
  by (simp add: swap_def nth_list_update)

lemma scan_step_inv:
  assumes "scan_inv data p low h s" "low \<le> h" "h < length data"
  shows "scan_inv data p low (Suc h) (scan_step p h s)"
proof -
  obtain d i where s: "s = (d, i)" by (cases s)
  from assms s have inv: "length d = length data" "mset d = mset data" "int low - 1 \<le> i" "i < int h"
     "\<forall>k. low \<le> k \<and> int k \<le> i \<longrightarrow> d ! k < p"
     "\<forall>k. i < int k \<and> k < h \<longrightarrow> p \<le> d ! k"
     "\<forall>k. k < low \<or> h \<le> k \<longrightarrow> d ! k = data ! k"
    by (simp_all add: scan_inv_def)
  show ?thesis
  proof (cases "d ! h < p")
    case False
    then have "scan_step p h s = (d, i)" by (simp add: scan_step_def s)
    moreover have "\<forall>k. i < int k \<and> k < Suc h \<longrightarrow> p \<le> d ! k"
      using inv(6) False by (auto simp: less_Suc_eq)
    ultimately show ?thesis using inv by (simp add: scan_inv_def)
  next
    case True
    define b where "b = nat (i + 1)"
    have b: "low \<le> b" "b \<le> h" "int b = i + 1" using inv(3,4) assms(2) by (auto simp: b_def)
    have bl: "b < length d" "h < length d" using b assms(3) inv(1) by auto
    have st: "scan_step p h s = (swap d b h, i + 1)" using True by (simp add: scan_step_def s b_def)
    have nth: "\<And>k. k < length d \<Longrightarrow> swap d b h ! k = (if k = h then d ! b else if k = b then d ! h else d ! k)"
      using bl by (simp add: nth_swap)
    have 1: "\<forall>k. low \<le> k \<and> int k \<le> i + 1 \<longrightarrow> swap d b h ! k < p"
    proof (intro allI impI)
      fix k assume k: "low \<le> k \<and> int k \<le> i + 1"
      then have "k \<le> b" using b by simp
      then have kl: "k < length d" using bl by simp
      show "swap d b h ! k < p"
      proof (cases "k = b")
        case True then show ?thesis using nth [OF kl] \<open>d ! h < p\<close> by auto
      next
        case False
        then have "int k \<le> i" "k \<noteq> h" using k b \<open>k \<le> b\<close> by auto
        then show ?thesis using nth [OF kl] False inv(5) k by auto
      qed
    qed
    have 2: "\<forall>k. i + 1 < int k \<and> k < Suc h \<longrightarrow> p \<le> swap d b h ! k"
    proof (intro allI impI)
      fix k assume k: "i + 1 < int k \<and> k < Suc h"
      then have kb: "b < k" "k \<le> h" using b by auto
      then have kl: "k < length d" using bl by simp
      show "p \<le> swap d b h ! k"
      proof (cases "k = h")
        case True
        then have "swap d b h ! k = d ! b" using nth [OF kl] by simp
        moreover have "p \<le> d ! b" using inv(6) b kb True by auto
        ultimately show ?thesis by simp
      next
        case False
        then have "swap d b h ! k = d ! k" using nth [OF kl] kb by simp
        moreover have "p \<le> d ! k" using inv(6) k False by auto
        ultimately show ?thesis by simp
      qed
    qed
    have 3: "\<forall>k. k < low \<or> Suc h \<le> k \<longrightarrow> swap d b h ! k = data ! k"
    proof (intro allI impI)
      fix k assume k: "k < low \<or> Suc h \<le> k"
      then have ne: "k \<noteq> b" "k \<noteq> h" using b assms(2) by auto
      have "swap d b h ! k = d ! k" using ne by (simp add: swap_def)
      then show "swap d b h ! k = data ! k" using inv(7) k by auto
    qed
    have "mset (swap d b h) = mset data" using bl inv(2) by (simp add: mset_swap_vec)
    then show ?thesis using st 1 2 3 inv(1,3,4) by (simp add: scan_inv_def)
  qed
qed

lemma scan_fold_inv:
  assumes "low + n \<le> length data"
  shows "scan_inv data p low (low + n) (fold (scan_step p) [low..<low + n] (data, int low - 1))"
  using assms
proof (induction n)
  case 0
  show ?case by (simp add: scan_inv_def)
next
  case (Suc n)
  then have "scan_inv data p low (low + n) (fold (scan_step p) [low..<low + n] (data, int low - 1))"
    by simp
  then have "scan_inv data p low (Suc (low + n)) (scan_step p (low + n) (fold (scan_step p) [low..<low + n] (data, int low - 1)))"
    using Suc.prems by (intro scan_step_inv) auto
  then show ?case by simp
qed

lemma sint_pred: "0 \<le> sint (x :: cint) \<Longrightarrow> sint (x - 1) = sint x - 1"
proof -
  assume nn: "0 \<le> sint x"
  have "sint x < 2 ^ (LENGTH(32) - 1)" by (rule sint_lt)
  then have ub: "sint x - 1 < 2 ^ 31" by simp
  have lb: "- (2 ^ 31) \<le> sint x - 1" using nn by simp
  have "sint (x - 1) = signed_take_bit (LENGTH(32) - 1) (sint x - sint (1 :: cint))"
    by (rule sint_word_diff)
  also have "\<dots> = signed_take_bit 31 (sint x - 1)" by simp
  also have "\<dots> = sint x - 1"
    using lb ub by (simp add: signed_take_bit_int_eq_self)
  finally show ?thesis .
qed

lemma sint_of_nat: "n < 2 ^ 31 \<Longrightarrow> sint (of_nat n :: cint) = int n"
proof -
  assume n: "n < 2 ^ 31"
  have "sint (word_of_int (int n) :: cint) = signed_take_bit (LENGTH(32) - 1) (int n)"
    by (rule sint_sbintrunc')
  also have "\<dots> = int n"
  proof -
    have "int n < 2 ^ 31" using n by (metis of_nat_less_iff of_nat_numeral of_nat_power)
    then show ?thesis by (simp add: signed_take_bit_int_eq_self)
  qed
  finally show ?thesis by simp
qed

lemma cint_of_nat: "0 \<le> sint (w :: cint) \<Longrightarrow> of_nat (nat (sint w)) = w"
proof -
  assume "0 \<le> sint w"
  then have "(of_nat (nat (sint w)) :: cint) = of_int (sint w)" by (rule of_nat_nat)
  also have "\<dots> = w" by (simp add: of_int_sint)
  finally show ?thesis .
qed

lemma partition_loop_refine:
  assumes "sint j = int jn" "sint high = int hn" "jn + n = hn" "hn \<le> length data"
    and "sint i = iv" "- 1 \<le> iv" "iv < int jn"
  shows "\<exists>i'. partition_loop data pivot high i j
            = Inr (fst (fold (scan_step pivot) [jn..<hn] (data, iv)), i') \<and>
          sint i' = snd (fold (scan_step pivot) [jn..<hn] (data, iv))"
  using assms
proof (induction n arbitrary: data i j jn iv)
  case 0
  then have "\<not> j <s high" by (simp add: word_sless_alt)
  then show ?case using 0 by (simp add: partition_loop.simps)
next
  case (Suc n)
  have lt: "j <s high" using Suc.prems by (simp add: word_sless_alt)
  have jb: "in_bounds data j" "idx j = jn" using Suc.prems by (auto simp: in_bounds_def idx_def)
  have sj: "sint (j + 1) = int (Suc jn)" using sint_succ [OF lt] Suc.prems by simp
  have up: "[jn..<hn] = jn # [Suc jn..<hn]" using Suc.prems by (simp add: upt_conv_Cons)
  show ?case
  proof (cases "data ! jn < pivot")
    case False
    have "partition_loop data pivot high i j = partition_loop data pivot high i (j + 1)"
      using lt jb False by (subst partition_loop.simps) simp
    moreover have "fold (scan_step pivot) [jn..<hn] (data, iv)
        = fold (scan_step pivot) [Suc jn..<hn] (data, iv)"
      using False by (simp add: up scan_step_def)
    moreover have "\<exists>i'. partition_loop data pivot high i (j + 1)
            = Inr (fst (fold (scan_step pivot) [Suc jn..<hn] (data, iv)), i') \<and>
          sint i' = snd (fold (scan_step pivot) [Suc jn..<hn] (data, iv))"
      using Suc.prems sj by (intro Suc.IH) auto
    ultimately show ?thesis by simp
  next
    case True
    have "i <s j" using Suc.prems by (simp add: word_sless_alt)
    then have si: "sint (i + 1) = iv + 1" using sint_succ [of i j] Suc.prems by simp
    then have ib: "in_bounds data (i + 1)" "idx (i + 1) = nat (iv + 1)"
      using Suc.prems by (auto simp: in_bounds_def idx_def)
    have "partition_loop data pivot high i j
        = partition_loop (swap data (nat (iv + 1)) jn) pivot high (i + 1) (j + 1)"
      using lt jb True ib by (subst partition_loop.simps) simp
    moreover have "fold (scan_step pivot) [jn..<hn] (data, iv)
        = fold (scan_step pivot) [Suc jn..<hn] (swap data (nat (iv + 1)) jn, iv + 1)"
      using True by (simp add: up scan_step_def)
    moreover have "\<exists>i'. partition_loop (swap data (nat (iv + 1)) jn) pivot high (i + 1) (j + 1)
            = Inr (fst (fold (scan_step pivot) [Suc jn..<hn] (swap data (nat (iv + 1)) jn, iv + 1)), i') \<and>
          sint i' = snd (fold (scan_step pivot) [Suc jn..<hn] (swap data (nat (iv + 1)) jn, iv + 1))"
      using Suc.prems sj si by (intro Suc.IH) auto
    ultimately show ?thesis by simp
  qed
qed

lemma partition_refine:
  assumes "sint low = int l" "sint high = int h" "l \<le> h" "h < length data"
  shows "partition data low high
         = Inr (fst (partition_spec data l h), of_nat (snd (partition_spec data l h)))"
proof -
  define s where "s = fold (scan_step (data ! h)) [l..<h] (data, int l - 1)"
  obtain d iv where s: "s = (d, iv)" by (cases s)
  have hb: "in_bounds data high" "idx high = h" using assms by (auto simp: in_bounds_def idx_def)
  have sl: "sint (low - 1) = int l - 1" using sint_pred [of low] assms by simp
  obtain n where n: "l + n = h" using assms(3) by (metis le_add_diff_inverse)
  have "\<exists>i'. partition_loop data (data ! h) high (low - 1) low
            = Inr (fst (fold (scan_step (data ! h)) [l..<h] (data, int l - 1)), i') \<and>
          sint i' = snd (fold (scan_step (data ! h)) [l..<h] (data, int l - 1))"
    using assms sl n by (intro partition_loop_refine [where n = n]) auto
  then obtain i' where loop: "partition_loop data (data ! h) high (low - 1) low = Inr (d, i')"
    and i': "sint i' = iv"
    using s by (auto simp: s_def)
  have "scan_inv data (data ! h) l (l + n) (fold (scan_step (data ! h)) [l..<l + n] (data, int l - 1))"
    using assms n by (intro scan_fold_inv) simp
  then have inv: "length d = length data" "int l - 1 \<le> iv" "iv < int h"
    using n s by (auto simp: s_def scan_inv_def)
  have "i' <s high" using i' inv assms by (simp add: word_sless_alt)
  then have si: "sint (i' + 1) = iv + 1" using sint_succ [of i' high] i' by simp
  then have ib: "in_bounds d (i' + 1)" "idx (i' + 1) = nat (iv + 1)"
    using inv assms by (auto simp: in_bounds_def idx_def)
  have hb': "in_bounds d high" using hb inv by (simp add: in_bounds_def)
  have "0 \<le> sint (i' + 1)" using si inv by simp
  then have w: "of_nat (nat (iv + 1)) = i' + 1" using cint_of_nat [of "i' + 1"] si by simp
  have "partition data low high = Inr (swap d (nat (iv + 1)) h, i' + 1)"
    using hb loop ib hb' by (simp add: partition_def)
  moreover have "partition_spec data l h = (swap d (nat (iv + 1)) h, nat (iv + 1))"
    using s by (simp add: partition_spec_def s_def [symmetric])
  ultimately show ?thesis using w by simp
qed

lemma partition_spec_props:
  assumes "l \<le> h" "h < length data" "partition_spec data l h = (d', p)"
  shows "length d' = length data" "mset d' = mset data" "l \<le> p" "p \<le> h"
    "d' ! p = data ! h"
    "\<forall>k. l \<le> k \<and> k < p \<longrightarrow> d' ! k < d' ! p"
    "\<forall>k. p < k \<and> k \<le> h \<longrightarrow> d' ! p \<le> d' ! k"
    "\<forall>k. k < l \<or> h < k \<longrightarrow> d' ! k = data ! k"
proof -
  define s where "s = fold (scan_step (data ! h)) [l..<h] (data, int l - 1)"
  obtain d iv where s: "s = (d, iv)" by (cases s)
  obtain n where n: "l + n = h" using assms(1) by (metis le_add_diff_inverse)
  have "scan_inv data (data ! h) l (l + n) (fold (scan_step (data ! h)) [l..<l + n] (data, int l - 1))"
    using assms n by (intro scan_fold_inv) simp
  then have inv: "length d = length data" "mset d = mset data" "int l - 1 \<le> iv" "iv < int h"
     "\<forall>k. l \<le> k \<and> int k \<le> iv \<longrightarrow> d ! k < data ! h"
     "\<forall>k. iv < int k \<and> k < h \<longrightarrow> data ! h \<le> d ! k"
     "\<forall>k. k < l \<or> h \<le> k \<longrightarrow> d ! k = data ! k"
    using n s by (auto simp: s_def scan_inv_def)
  define b where "b = nat (iv + 1)"
  have b: "l \<le> b" "b \<le> h" "int b = iv + 1" using inv(3,4) by (auto simp: b_def)
  have bl: "b < length d" "h < length d" using b assms(2) inv(1) by auto
  have "partition_spec data l h = (swap d b h, b)"
    using s by (simp add: partition_spec_def s_def [symmetric] b_def)
  then have d': "d' = swap d b h" and p: "p = b" using assms(3) by auto
  have nth: "\<And>k. k < length d \<Longrightarrow> swap d b h ! k = (if k = h then d ! b else if k = b then d ! h else d ! k)"
    using bl by (simp add: nth_swap)
  have dh: "d ! h = data ! h" using inv(7) by simp
  show "length d' = length data" using d' inv(1) by simp
  show "mset d' = mset data" using d' bl inv(2) by (simp add: mset_swap_vec)
  show "l \<le> p" "p \<le> h" using b p by auto
  show piv: "d' ! p = data ! h" using nth [OF bl(1)] dh d' p by auto
  show "\<forall>k. l \<le> k \<and> k < p \<longrightarrow> d' ! k < d' ! p"
  proof (intro allI impI)
    fix k assume k: "l \<le> k \<and> k < p"
    then have "k < length d" "k \<noteq> h" "k \<noteq> b" "int k \<le> iv" using p b bl by auto
    then have "d' ! k = d ! k" "d ! k < data ! h" using nth [of k] d' inv(5) k by auto
    then show "d' ! k < d' ! p" using piv by simp
  qed
  show "\<forall>k. p < k \<and> k \<le> h \<longrightarrow> d' ! p \<le> d' ! k"
  proof (intro allI impI)
    fix k assume k: "p < k \<and> k \<le> h"
    then have kl: "k < length d" "b < k" using p bl by auto
    have "data ! h \<le> d' ! k"
    proof (cases "k = h")
      case True
      then have "d' ! k = d ! b" using nth [OF kl(1)] d' by simp
      moreover have "data ! h \<le> d ! b" using inv(6) b kl True by auto
      ultimately show ?thesis by simp
    next
      case False
      then have "d' ! k = d ! k" using nth [OF kl(1)] kl d' by simp
      moreover have "data ! h \<le> d ! k" using inv(6) k kl b False by auto
      ultimately show ?thesis by simp
    qed
    then show "d' ! p \<le> d' ! k" using piv by simp
  qed
  show "\<forall>k. k < l \<or> h < k \<longrightarrow> d' ! k = data ! k"
  proof (intro allI impI)
    fix k assume k: "k < l \<or> h < k"
    then have ne: "k \<noteq> b" "k \<noteq> h" using b assms(1) by auto
    have "swap d b h ! k = d ! k" using ne by (simp add: swap_def)
    then show "d' ! k = data ! k" using inv(7) k d' by auto
  qed
qed

lemma partition_Inr_bounds:
  assumes "low <s high" "partition data low high = Inr r"
  shows "in_bounds data low" "in_bounds data high"
proof -
  show hb: "in_bounds data high" using assms(2) by (auto simp: partition_def split: if_splits)
  show "in_bounds data low"
  proof (rule ccontr)
    assume "\<not> in_bounds data low"
    then have "partition_loop data (data ! idx high) high (low - 1) low = Inl OutOfBounds"
      using assms(1) by (subst partition_loop.simps) simp
    then show False using assms(2) hb by (simp add: partition_def)
  qed
qed

lemma partition_Inr:
  assumes "low <s high" "partition data low high = Inr (d', pi)"
  shows "0 \<le> sint low" "sint high < int (length data)"
    "partition_spec data (idx low) (idx high) = (d', idx pi)"
    "sint low \<le> sint pi" "sint pi \<le> sint high"
proof -
  have b: "in_bounds data low" "in_bounds data high"
    using partition_Inr_bounds [OF assms] by auto
  then show lo: "0 \<le> sint low" and hi: "sint high < int (length data)"
    by (auto simp: in_bounds_def)
  have lh: "sint low < sint high" using assms(1) by (simp add: word_sless_alt)
  have eq: "sint low = int (idx low)" "sint high = int (idx high)"
    using lo lh by (auto simp: idx_def)
  have le: "idx low \<le> idx high" "idx high < length data" using lh lo hi by (auto simp: idx_def)
  obtain d p where sp: "partition_spec data (idx low) (idx high) = (d, p)"
    by (cases "partition_spec data (idx low) (idx high)")
  have "partition data low high = Inr (d, of_nat p)"
    using partition_refine [OF eq le] sp by simp
  then have d: "d' = d" and pi: "pi = of_nat p" using assms(2) by auto
  have p: "idx low \<le> p" "p \<le> idx high" using partition_spec_props(3,4) [OF le sp] by auto
  have "sint high < 2 ^ (LENGTH(32) - 1)" by (rule sint_lt)
  then have "int p < 2 ^ 31" using p eq by simp
  then have "p < 2 ^ 31" by (metis of_nat_less_iff of_nat_numeral of_nat_power)
  then have sp': "sint pi = int p" using pi by (simp add: sint_of_nat)
  then have "idx pi = p" by (simp add: idx_def)
  then show "partition_spec data (idx low) (idx high) = (d', idx pi)" using sp d by simp
  show "sint low \<le> sint pi" "sint pi \<le> sint high" using sp' p eq by auto
qed

lemma sint_succ_or_neg: "0 \<le> sint (x :: cint) \<Longrightarrow> sint (x + 1) = sint x + 1 \<or> sint (x + 1) < 0"
proof -
  assume nn: "0 \<le> sint x"
  have eq: "sint (x + 1) = signed_take_bit 31 (sint x + 1)"
    using sint_word_ariths(1) [of x 1] by simp
  have "sint x < 2 ^ (LENGTH(32) - 1)" by (rule sint_lt)
  then have le: "sint x + 1 \<le> 2 ^ 31" by simp
  show ?thesis
  proof (cases "sint x + 1 < 2 ^ 31")
    case True
    then show ?thesis using nn eq by (simp add: signed_take_bit_int_eq_self)
  next
    case False
    then have "sint x + 1 = 2147483648" using le by simp
    then have "sint (x + 1) = signed_take_bit 31 2147483648" using eq by simp
    also have "\<dots> < (0::int)" by (simp add: signed_take_bit_eq_take_bit_shift)
    finally show ?thesis by simp
  qed
qed

subsection \<open>Quicksort\<close>

termination quicksort
proof (relation "measure (\<lambda>(data, low, high).
          if sint low < 0 then 0 else 1 + nat (sint high + 1 - sint low))")
  show "wf (measure (\<lambda>(data, low, high).
          if sint low < 0 then 0 else 1 + nat (sint high + 1 - sint low)))" by simp
next
  fix data :: vec and low high :: cint and x2 :: "vec \<times> cint" and data1 :: vec and pi :: cint
  assume a: "low <s high" "partition data low high = Inr x2" "(data1, pi) = x2"
  then have p: "partition data low high = Inr (data1, pi)" by simp
  note f = partition_Inr [OF a(1) p]
  have "sint (pi - 1) = sint pi - 1" using sint_pred [of pi] f by simp
  then show "((data1, low, pi - 1), (data, low, high)) \<in> measure (\<lambda>(data, low, high).
          if sint low < 0 then 0 else 1 + nat (sint high + 1 - sint low))"
    using f a(1) by (simp add: word_sless_alt)
next
  fix data :: vec and low high :: cint and x2 :: "vec \<times> cint" and data1 :: vec and pi :: cint
    and data2 :: vec
  assume a: "low <s high" "partition data low high = Inr x2" "(data1, pi) = x2"
  then have p: "partition data low high = Inr (data1, pi)" by simp
  note f = partition_Inr [OF a(1) p]
  have "sint (pi + 1) = sint pi + 1 \<or> sint (pi + 1) < 0" using sint_succ_or_neg [of pi] f by simp
  then show "((data2, pi + 1, high), (data, low, high)) \<in> measure (\<lambda>(data, low, high).
          if sint low < 0 then 0 else 1 + nat (sint high + 1 - sint low))"
    using f a(1) by (auto simp: word_sless_alt)
qed

declare quicksort.simps [simp del]

lemma range_split:
  assumes "l \<le> e" "e \<le> length d"
  shows "d = take l d @ take (e - l) (drop l d) @ drop e d"
proof -
  have "drop l d = take (e - l) (drop l d) @ drop (e - l) (drop l d)"
    by (rule append_take_drop_id [symmetric])
  moreover have "drop (e - l) (drop l d) = drop e d" using assms by simp
  ultimately have "take l d @ drop l d = take l d @ take (e - l) (drop l d) @ drop e d" by simp
  then show ?thesis by simp
qed

lemma range_mset:
  assumes "unchanged_outside d d' l e" "mset d' = mset d" "l \<le> e" "e \<le> length d"
  shows "mset (take (e - l) (drop l d')) = mset (take (e - l) (drop l d))"
proof -
  have len: "length d' = length d" using assms(1) by (simp add: unchanged_outside_def)
  have fr: "\<And>k. k < length d \<Longrightarrow> k < l \<or> e \<le> k \<Longrightarrow> d' ! k = d ! k"
    using assms(1) by (simp add: unchanged_outside_def)
  have t: "take l d' = take l d"
    using assms(3,4) len fr by (intro nth_take_lemma) auto
  have dr: "drop e d' = drop e d"
    using assms(3,4) len fr by (intro nth_equalityI) auto
  have "mset d' = mset (take l d' @ take (e - l) (drop l d') @ drop e d')"
    using range_split [of l e d'] assms(3,4) len by simp
  moreover have "mset d = mset (take l d @ take (e - l) (drop l d) @ drop e d)"
    using range_split [of l e d] assms(3,4) by simp
  ultimately show ?thesis using assms(2) t dr by simp
qed

lemma range_elem:
  assumes "unchanged_outside d d' l e" "mset d' = mset d" "l \<le> e" "e \<le> length d"
    and "l \<le> k" "k < e"
  shows "\<exists>k'. l \<le> k' \<and> k' < e \<and> d' ! k = d ! k'"
proof -
  have len: "length d' = length d" using assms(1) by (simp add: unchanged_outside_def)
  have "set (take (e - l) (drop l d')) = set (take (e - l) (drop l d))"
    using range_mset [OF assms(1-4)] by (rule mset_eq_setD)
  moreover have "d' ! k = take (e - l) (drop l d') ! (k - l)"
    using assms len by simp
  moreover have "k - l < length (take (e - l) (drop l d'))" using assms len by simp
  ultimately have "d' ! k \<in> set (take (e - l) (drop l d))" by (metis nth_mem)
  then obtain m where m: "m < length (take (e - l) (drop l d))"
      "take (e - l) (drop l d) ! m = d' ! k"
    by (auto simp: in_set_conv_nth)
  then have "m < e - l" "d ! (l + m) = d' ! k" using assms by auto
  then show ?thesis by (intro exI [of _ "l + m"]) auto
qed

lemma quicksort_correct:
  assumes "sint low = int l" "sint high = int e - 1" "l \<le> e" "e \<le> length data" "e < 2 ^ 31"
  shows "\<exists>d'. quicksort data low high = Inr d' \<and> unchanged_outside data d' l e \<and>
           mset d' = mset data \<and> sorted_range d' l e"
  using assms
proof (induction "e - l" arbitrary: data low high l e rule: less_induct)
  case less
  show ?case
  proof (cases "low <s high")
    case False
    then have "e \<le> Suc l" using less.prems by (simp add: word_sless_alt)
    then have "\<And>a b. l \<le> a \<Longrightarrow> a \<le> b \<Longrightarrow> b < e \<Longrightarrow> a = b" by linarith
    then have "sorted_range data l e" by (auto simp: sorted_range_def)
    moreover have "quicksort data low high = Inr data" using False by (simp add: quicksort.simps)
    ultimately show ?thesis by (simp add: unchanged_outside_def)
  next
    case True
    then have le: "Suc l < e" using less.prems by (simp add: word_sless_alt)
    define h where "h = e - 1"
    have h: "sint high = int h" "l \<le> h" "h < length data" "Suc h = e"
      using le less.prems by (auto simp: h_def)
    obtain d1 p where sp: "partition_spec data l h = (d1, p)" by (cases "partition_spec data l h")
    note pp = partition_spec_props [OF h(2,3) sp]
    have part: "partition data low high = Inr (d1, of_nat p)"
      using partition_refine [OF less.prems(1) h(1,2,3)] sp by simp
    have p31: "p < 2 ^ 31" "Suc p < 2 ^ 31" using pp(4) h(4) less.prems(5) by auto
    have spi: "sint (of_nat p :: cint) = int p" using p31 by (simp add: sint_of_nat)
    have s1: "sint ((of_nat p :: cint) - 1) = int p - 1"
      using sint_pred [of "of_nat p"] spi by simp
    have "(of_nat p :: cint) + 1 = of_nat (Suc p)" by simp
    then have s2: "sint ((of_nat p :: cint) + 1) = int (Suc p) " using p31 by (simp only: sint_of_nat)
    have "\<exists>d'. quicksort d1 low (of_nat p - 1) = Inr d' \<and> unchanged_outside d1 d' l p \<and>
           mset d' = mset d1 \<and> sorted_range d' l p"
      using less.prems pp h p31 s1 by (intro less.hyps) auto
    then obtain d2 where q1: "quicksort d1 low (of_nat p - 1) = Inr d2"
      and u1: "unchanged_outside d1 d2 l p" and m1: "mset d2 = mset d1"
      and so1: "sorted_range d2 l p" by blast
    have len2: "length d2 = length data" using u1 pp(1) by (simp add: unchanged_outside_def)
    have "\<exists>d'. quicksort d2 (of_nat p + 1) high = Inr d' \<and> unchanged_outside d2 d' (Suc p) e \<and>
           mset d' = mset d2 \<and> sorted_range d' (Suc p) e"
      using less.prems pp h p31 s2 len2 by (intro less.hyps) auto
    then obtain d3 where q2: "quicksort d2 (of_nat p + 1) high = Inr d3"
      and u2: "unchanged_outside d2 d3 (Suc p) e" and m2: "mset d3 = mset d2"
      and so2: "sorted_range d3 (Suc p) e" by blast
    have len3: "length d3 = length data" using u2 len2 by (simp add: unchanged_outside_def)
    have res: "quicksort data low high = Inr d3"
      using True part q1 q2 by (subst quicksort.simps) simp
    have f1: "\<And>k. k < length data \<Longrightarrow> k < l \<or> p \<le> k \<Longrightarrow> d2 ! k = d1 ! k"
      using u1 pp(1) by (simp add: unchanged_outside_def)
    have f2: "\<And>k. k < length data \<Longrightarrow> k < Suc p \<or> e \<le> k \<Longrightarrow> d3 ! k = d2 ! k"
      using u2 len2 by (simp add: unchanged_outside_def)
    have f0: "\<And>k. k < l \<or> h < k \<Longrightarrow> d1 ! k = data ! k" using pp(8) by blast
    have pe: "l \<le> p" "p < e" "e \<le> length data" using pp(3,4) h less.prems by auto
    have unch: "unchanged_outside data d3 l e"
      unfolding unchanged_outside_def
    proof (intro conjI allI impI)
      show "length d3 = length data" by (rule len3)
    next
      fix k assume k: "k < length data \<and> (k < l \<or> e \<le> k)"
      then have "d3 ! k = d2 ! k" using f2 [of k] pe by auto
      also have "\<dots> = d1 ! k" using f1 [of k] k pe by auto
      also have "\<dots> = data ! k" using f0 [of k] k h by auto
      finally show "d3 ! k = data ! k" .
    qed
    have piv: "d3 ! p = d1 ! p" using f2 [of p] f1 [of p] pe by simp
    have left: "d3 ! k < d1 ! p" if lk: "l \<le> k" "k < p" for k
    proof -
      have "d3 ! k = d2 ! k" using f2 [of k] lk pe by simp
      moreover obtain k' where "l \<le> k'" "k' < p" "d2 ! k = d1 ! k'"
        using range_elem [OF u1 m1 _ _ lk] pe pp(1) by auto
      ultimately show ?thesis using pp(6) by auto
    qed
    have right: "d1 ! p \<le> d3 ! k" if pk: "p < k" "k < e" for k
    proof -
      obtain k' where k': "Suc p \<le> k'" "k' < e" "d3 ! k = d2 ! k'"
        using range_elem [OF u2 m2, of k] pk pe len2 by auto
      then have "d2 ! k' = d1 ! k'" using f1 [of k'] pe by simp
      moreover have "d1 ! p \<le> d1 ! k'" using pp(7) k' h by auto
      ultimately show ?thesis using k' by simp
    qed
    have srt: "sorted_range d3 l e"
      unfolding sorted_range_def
    proof (intro allI impI)
      fix a b assume ab: "l \<le> a \<and> a \<le> b \<and> b < e"
      consider "b < p" | "a < p" "b = p" | "a < p" "p < b" | "a = p" "b = p" | "a = p" "p < b" | "p < a"
        using ab by linarith
      then show "d3 ! a \<le> d3 ! b"
      proof cases
        case 1
        then have "d3 ! a = d2 ! a" "d3 ! b = d2 ! b" using f2 [of a] f2 [of b] ab pe by auto
        moreover have "d2 ! a \<le> d2 ! b" using so1 ab 1 by (simp add: sorted_range_def)
        ultimately show ?thesis by simp
      next
        case 2 then show ?thesis using left [of a] piv ab by simp
      next
        case 3 then show ?thesis using left [of a] right [of b] ab by simp
      next
        case 4 then show ?thesis by simp
      next
        case 5 then show ?thesis using right [of b] piv ab by simp
      next
        case 6 then show ?thesis using so2 ab by (simp add: sorted_range_def)
      qed
    qed
    have "mset d3 = mset data" using m2 m1 pp(2) by simp
    then show ?thesis using res unch srt by simp
  qed
qed

lemma high_of_empty: "sint (of_nat (size_sub 0 1) :: cint) = - 1"
  by (simp add: size_sub_def)

lemma high_of_size:
  assumes "length data < 2 ^ 31"
  shows "sint (of_nat (size_sub (length data) 1) :: cint) = int (length data) - 1"
proof (cases "length data = 0")
  case True
  then show ?thesis using high_of_empty by simp
next
  case False
  then have "1 \<le> length data" by (cases data) auto
  then have "size_sub (length data) 1 = length data - 1" by (simp add: size_sub_def)
  moreover have "length data - 1 < 2 ^ 31" using assms by simp
  ultimately have "sint (of_nat (size_sub (length data) 1) :: cint) = int (length data - 1)"
    by (simp add: sint_of_nat)
  then show ?thesis using \<open>1 \<le> length data\<close> by (simp add: of_nat_diff)
qed

lemma sorted_range_all: "sorted_range d 0 (length d) \<Longrightarrow> sorted d"
  by (auto simp: sorted_range_def sorted_iff_nth_mono)

lemma QuickSort_sort_correct:
  assumes "length data < 2 ^ 31"
  shows "\<exists>d'. QuickSort_sort data = Inr d' \<and> mset d' = mset data \<and> sorted d'"
proof -
  have "\<exists>d'. quicksort data 0 (of_nat (size_sub (length data) 1)) = Inr d' \<and>
          unchanged_outside data d' 0 (length data) \<and> mset d' = mset data \<and>
          sorted_range d' 0 (length data)"
    using assms high_of_size [OF assms] by (intro quicksort_correct) auto
  then obtain d' where d': "quicksort data 0 (of_nat (size_sub (length data) 1)) = Inr d'"
     "unchanged_outside data d' 0 (length data)" "mset d' = mset data"
     "sorted_range d' 0 (length data)" by blast
  then have "length d' = length data" by (simp add: unchanged_outside_def)
  then have "sorted d'" using d'(4) sorted_range_all [of d'] by simp
  then show ?thesis using d' by (simp add: QuickSort_sort_def)
qed

lemma smod_nonneg:
  assumes "0 \<le> (x + 2147483648) mod 4294967296 - 2147483648"
  shows "(x + 2147483648) mod 4294967296 - 2147483648 = x mod (4294967296 :: int)"
proof -
  define r where "r = x mod 4294967296"
  have r: "0 \<le> r" "r < 4294967296" by (simp_all add: r_def)
  have eq: "(x + 2147483648) mod 4294967296 = (r + 2147483648) mod 4294967296"
    unfolding r_def by (rule mod_add_left_eq [symmetric])
  show ?thesis
  proof (cases "r < 2147483648")
    case True
    then have "(r + 2147483648) mod 4294967296 = r + 2147483648"
      using r by (intro mod_pos_pos_trivial) auto
    then show ?thesis using eq by (simp add: r_def)
  next
    case False
    have "r + 2147483648 = (r - 2147483648) + 4294967296" by simp
    then have "(r + 2147483648) mod 4294967296 = (r - 2147483648) mod 4294967296"
      by (metis mod_add_self2)
    also have "\<dots> = r - 2147483648" using r False by (intro mod_pos_pos_trivial) auto
    finally have "(x + 2147483648) mod 4294967296 - 2147483648 = r - 4294967296"
      using eq by simp
    then show ?thesis using assms r by simp
  qed
qed

lemma high_nonneg:
  assumes "0 \<le> sint (of_nat m :: cint)"
  shows "sint (of_nat m :: cint) = int (m mod 2 ^ 32)"
proof -
  have "sint (word_of_int (int m) :: cint)
      = (int m + 2 ^ (LENGTH(32) - 1)) mod 2 ^ LENGTH(32) - 2 ^ (LENGTH(32) - 1)"
    by (rule int_word_sint)
  then have s: "sint (of_nat m :: cint) = (int m + 2147483648) mod 4294967296 - 2147483648"
    by simp
  then have "sint (of_nat m :: cint) = int m mod 4294967296" using assms smod_nonneg by simp
  also have "\<dots> = int (m mod 2 ^ 32)" by (simp add: zmod_int)
  finally show ?thesis .
qed

lemma QuickSort_sort_permutes:
  assumes "length data mod 2 ^ 32 \<noteq> 2 ^ 31"
  shows "\<exists>d'. QuickSort_sort data = Inr d' \<and> mset d' = mset data"
proof (cases "0 <s (of_nat (size_sub (length data) 1) :: cint)")
  case False
  then show ?thesis by (simp add: QuickSort_sort_def quicksort.simps)
next
  case True
  define n where "n = length data"
  define h :: cint where "h = of_nat (size_sub n 1)"
  have pos: "0 < sint h" using True by (simp add: h_def n_def word_sless_alt)
  have n1: "1 \<le> n"
  proof (rule ccontr)
    assume "\<not> 1 \<le> n"
    then have "n = 0" by simp
    then have "sint h = - 1" using high_of_empty by (simp add: h_def)
    then show False using pos by simp
  qed
  then have hm: "h = of_nat (n - 1)" by (simp add: h_def size_sub_def)
  have sh: "sint h = int ((n - 1) mod 2 ^ 32)" using high_nonneg [of "n - 1"] pos hm by simp
  define e where "e = (n - 1) mod 2 ^ 32 + 1"
  have e1: "sint h = int e - 1" using sh by (simp add: e_def)
  have "(n - 1) mod 2 ^ 32 \<le> n - 1" by (rule mod_less_eq_dividend)
  then have e2: "e \<le> length data" using n1 by (simp add: e_def n_def)
  have "(n - 1) mod 2 ^ 32 \<noteq> 2 ^ 31 - 1"
  proof
    assume a: "(n - 1) mod 2 ^ 32 = 2 ^ 31 - 1"
    have "n mod 2 ^ 32 = ((n - 1) mod 2 ^ 32 + 1) mod 2 ^ 32"
      using n1 by (metis Suc_eq_plus1 Suc_pred' less_eq_Suc_le mod_Suc_eq One_nat_def)
    also have "\<dots> = 2 ^ 31" using a by simp
    finally show False using assms by (simp add: n_def)
  qed
  moreover have "int ((n - 1) mod 2 ^ 32) < 2 ^ 31"
    using sh sint_lt [of h] by simp
  ultimately have e3: "e < 2 ^ 31" by (simp add: e_def)
  have "\<exists>d'. quicksort data 0 h = Inr d' \<and> unchanged_outside data d' 0 e \<and>
          mset d' = mset data \<and> sorted_range d' 0 e"
    using e1 e2 e3 by (intro quicksort_correct) auto
  then show ?thesis by (auto simp: QuickSort_sort_def h_def n_def)
qed

subsection \<open>Bubble sort\<close>

declare bubble_inner.simps [simp del]

lemma bubble_inner_length:
  "bubble_inner data log i j = Inr (d', log') \<Longrightarrow> length d' = length data"
proof (induction data log i j rule: bubble_inner.induct)
  case (1 data log i j)
  show ?case
  proof (cases "j < size_sub (size_sub (length data) i) 1")
    case False
    then show ?thesis using "1.prems" by (simp add: bubble_inner.simps)
  next
    case True
    show ?thesis
    proof (cases "j < length data \<and> j + 1 < length data")
      case False
      then have "bubble_inner data log i j = Inl OutOfBounds"
        using True by (subst bubble_inner.simps) (simp only: if_True if_False simp_thms)
      then show ?thesis using "1.prems" by simp
    next
      case ib: True
      show ?thesis
      proof (cases "data ! j > data ! (j + 1)")
        case gt: True
        then have "bubble_inner (swap data j (j + 1))
                   (log @ [Compare j (data ! j) (data ! (j + 1)), Swap j]) i (j + 1) = Inr (d', log')"
          using True ib "1.prems" by (subst (asm) bubble_inner.simps) simp
        then have "length d' = length (swap data j (j + 1))"
          using True ib gt by (intro "1.IH"(1)) auto
        then show ?thesis by simp
      next
        case ngt: False
        then have "bubble_inner data (log @ [Compare j (data ! j) (data ! (j + 1))]) i (j + 1) = Inr (d', log')"
          using True ib "1.prems" by (subst (asm) bubble_inner.simps) simp
        then show ?thesis using True ib ngt by (intro "1.IH"(2)) auto
      qed
    qed
  qed
qed

termination bubble_outer
proof (relation "measure (\<lambda>(data, log, i). length data - i)")
  show "wf (measure (\<lambda>(data, log, i). length data - i))" by simp
next
  fix data :: vec and log :: "event list" and i :: nat and x2 :: "vec \<times> event list"
    and data' :: vec and log' :: "event list"
  assume "i < length data" "bubble_inner data (log @ [Pass i]) i 0 = Inr x2" "(data', log') = x2"
  then have "length data' = length data" using bubble_inner_length [of data _ i 0 data' log'] by simp
  then show "((data', log', i + 1), (data, log, i)) \<in> measure (\<lambda>(data, log, i). length data - i)"
    using \<open>i < length data\<close> by simp
qed

declare bubble_outer.simps [simp del]

lemma length_pass_step [simp]: "length (fst (pass_step j s)) = length (fst s)"
  by (cases s) (simp add: pass_step_def)

lemma length_fold_pass_step [simp]: "length (fst (fold pass_step js s)) = length (fst s)"
  by (induction js arbitrary: s) auto

lemma length_bubble_pass [simp]: "length (fst (bubble_pass n i s)) = length (fst s)"
  by (cases s) (simp add: bubble_pass_def)

lemma bubble_inner_refine:
  assumes "length data = n" "i < n" "j + m = n - i - 1"
  shows "bubble_inner data log i j = Inr (fold pass_step [j..<n - i - 1] (data, log))"
  using assms
proof (induction m arbitrary: data log j)
  case 0
  then have "size_sub (size_sub (length data) i) 1 = j" by (simp add: size_sub_def)
  then have "bubble_inner data log i j = Inr (data, log)" by (subst bubble_inner.simps) simp
  then show ?case using 0 by simp
next
  case (Suc m)
  have bound: "size_sub (size_sub (length data) i) 1 = n - i - 1"
    using Suc.prems by (simp add: size_sub_def)
  have lt: "j < n - i - 1" using Suc.prems by simp
  then have ib: "j < length data \<and> j + 1 < length data" using Suc.prems by linarith
  have up: "[j..<n - i - 1] = j # [Suc j..<n - i - 1]" using lt by (simp add: upt_conv_Cons)
  show ?case
  proof (cases "data ! j > data ! (j + 1)")
    case True
    have "bubble_inner data log i j = bubble_inner (swap data j (j + 1))
            (log @ [Compare j (data ! j) (data ! (j + 1)), Swap j]) i (j + 1)"
      using lt ib True bound by (subst bubble_inner.simps) (simp only: if_True if_False simp_thms)
    also have "\<dots> = Inr (fold pass_step [j + 1..<n - i - 1] (swap data j (j + 1),
            log @ [Compare j (data ! j) (data ! (j + 1)), Swap j]))"
      using Suc.prems by (intro Suc.IH) auto
    also have "fold pass_step [j + 1..<n - i - 1] (swap data j (j + 1),
            log @ [Compare j (data ! j) (data ! (j + 1)), Swap j])
          = fold pass_step [j..<n - i - 1] (data, log)"
      using True unfolding up by (simp add: pass_step_def)
    finally show ?thesis .
  next
    case False
    have "bubble_inner data log i j
            = bubble_inner data (log @ [Compare j (data ! j) (data ! (j + 1))]) i (j + 1)"
      using lt ib False bound by (subst bubble_inner.simps) (simp only: if_True if_False simp_thms)
    also have "\<dots> = Inr (fold pass_step [j + 1..<n - i - 1]
            (data, log @ [Compare j (data ! j) (data ! (j + 1))]))"
      using Suc.prems by (intro Suc.IH) auto
    also have "fold pass_step [j + 1..<n - i - 1] (data, log @ [Compare j (data ! j) (data ! (j + 1))])
          = fold pass_step [j..<n - i - 1] (data, log)"
      using False unfolding up by (simp add: pass_step_def)
    finally show ?thesis .
  qed
qed

lemma bubble_outer_refine:
  assumes "length data = n" "i + m = n"
  shows "bubble_outer data log i = Inr (fold (bubble_pass n) [i..<n] (data, log))"
  using assms
proof (induction m arbitrary: data log i)
  case 0
  then show ?case by (subst bubble_outer.simps) simp
next
  case (Suc m)
  then have lt: "i < n" by simp
  obtain d' log' where p: "bubble_pass n i (data, log) = (d', log')"
    by (cases "bubble_pass n i (data, log)")
  have inner: "bubble_inner data (log @ [Pass i]) i 0 = Inr (d', log')"
    using bubble_inner_refine [of data n i 0 "n - i - 1" "log @ [Pass i]"] Suc.prems lt p
    by (simp add: bubble_pass_def)
  have "length d' = n" using length_bubble_pass [of n i "(data, log)"] p Suc.prems by simp
  then have "bubble_outer d' log' (i + 1) = Inr (fold (bubble_pass n) [i + 1..<n] (d', log'))"
    using Suc.prems by (intro Suc.IH) auto
  moreover have "bubble_outer data log i = bubble_outer d' log' (i + 1)"
    using lt inner Suc.prems by (subst bubble_outer.simps) simp
  moreover have "[i..<n] = i # [i + 1..<n]" using lt by (simp add: upt_conv_Cons)
  ultimately show ?case using p by simp
qed

lemma BubbleSort_trace_refine: "BubbleSort_trace data = Inr (bubble_spec data)"
  using bubble_outer_refine [of data "length data" 0 "length data" "[]"]
  by (simp add: BubbleSort_trace_def bubble_spec_def)

lemma fst_pass_step:
  "fst (pass_step j s) = (if fst s ! j > fst s ! (j + 1) then swap (fst s) j (j + 1) else fst s)"
  by (cases s) (simp add: pass_step_def)

lemma pass_inv:
  assumes "m < length data"
  shows "mset (fst (fold pass_step [0..<m] (data, log))) = mset data \<and>
         (\<forall>k. k \<le> m \<longrightarrow> fst (fold pass_step [0..<m] (data, log)) ! k
                          \<le> fst (fold pass_step [0..<m] (data, log)) ! m) \<and>
         (\<forall>k. m < k \<longrightarrow> fst (fold pass_step [0..<m] (data, log)) ! k = data ! k)"
  using assms
proof (induction m)
  case 0
  show ?case by simp
next
  case (Suc m)
  define s where "s = fold pass_step [0..<m] (data, log)"
  define d where "d = fst s"
  have len: "length d = length data" by (simp add: d_def s_def)
  have ih: "mset d = mset data" "\<And>k. k \<le> m \<Longrightarrow> d ! k \<le> d ! m" "\<And>k. m < k \<Longrightarrow> d ! k = data ! k"
    using Suc by (auto simp: d_def s_def)
  have step: "fold pass_step [0..<Suc m] (data, log) = pass_step m s" by (simp add: s_def)
  have ib: "m < length d" "Suc m < length d" using Suc.prems len by auto
  show ?case
  proof (cases "d ! m > d ! Suc m")
    case False
    then have d': "fst (pass_step m s) = d" by (simp add: fst_pass_step d_def)
    have "\<And>k. k \<le> Suc m \<Longrightarrow> d ! k \<le> d ! Suc m"
    proof -
      fix k assume "k \<le> Suc m"
      then consider "k \<le> m" | "k = Suc m" by linarith
      then show "d ! k \<le> d ! Suc m"
      proof cases
        case 1 then show ?thesis using ih(2) [of k] False by simp
      next
        case 2 then show ?thesis by simp
      qed
    qed
    then have le: "\<And>k. k \<le> Suc m \<Longrightarrow> d ! k \<le> d ! Suc m" .
    have e: "fst (fold pass_step [0..<Suc m] (data, log)) = d" by (simp only: step d')
    show ?thesis
      unfolding e
    proof (intro conjI allI impI)
      show "mset d = mset data" by (rule ih(1))
    next
      fix k assume "k \<le> Suc m" then show "d ! k \<le> d ! Suc m" by (rule le)
    next
      fix k assume "Suc m < k" then show "d ! k = data ! k" using ih(3) [of k] by simp
    qed
  next
    case True
    then have d': "fst (pass_step m s) = swap d m (Suc m)" by (simp add: fst_pass_step d_def)
    have nth: "\<And>k. k < length d \<Longrightarrow>
        swap d m (Suc m) ! k = (if k = Suc m then d ! m else if k = m then d ! Suc m else d ! k)"
      using ib by (simp add: nth_swap)
    have 1: "\<And>k. k \<le> Suc m \<Longrightarrow> swap d m (Suc m) ! k \<le> swap d m (Suc m) ! Suc m"
    proof -
      fix k assume k: "k \<le> Suc m"
      then have kl: "k < length d" using ib by simp
      have top: "swap d m (Suc m) ! Suc m = d ! m" using nth [OF ib(2)] by simp
      consider "k < m" | "k = m" | "k = Suc m" using k by linarith
      then show "swap d m (Suc m) ! k \<le> swap d m (Suc m) ! Suc m"
      proof cases
        case 1 then show ?thesis using nth [OF kl] top ih(2) [of k] by simp
      next
        case 2 then show ?thesis using nth [OF kl] top True by simp
      next
        case 3 then show ?thesis by simp
      qed
    qed
    have 2: "\<And>k. Suc m < k \<Longrightarrow> swap d m (Suc m) ! k = data ! k"
    proof -
      fix k assume k: "Suc m < k"
      then have "swap d m (Suc m) ! k = d ! k" by (simp add: swap_def)
      then show "swap d m (Suc m) ! k = data ! k" using ih(3) [of k] k by simp
    qed
    have 3: "mset (swap d m (Suc m)) = mset data" using ib ih(1) by (simp add: mset_swap_vec)
    have e: "fst (fold pass_step [0..<Suc m] (data, log)) = swap d m (Suc m)"
      by (simp only: step d')
    show ?thesis
      unfolding e
    proof (intro conjI allI impI)
      show "mset (swap d m (Suc m)) = mset data" by (rule 3)
    next
      fix k assume "k \<le> Suc m"
      then show "swap d m (Suc m) ! k \<le> swap d m (Suc m) ! Suc m" by (rule 1)
    next
      fix k assume "Suc m < k" then show "swap d m (Suc m) ! k = data ! k" by (rule 2)
    qed
  qed
qed

lemma bubble_pass_inv:
  assumes "passes_inv data i d" "i < length data"
  shows "passes_inv data (Suc i) (fst (bubble_pass (length data) i (d, log)))"
proof -
  define n where "n = length data"
  define m where "m = n - i - 1"
  define d' where "d' = fst (fold pass_step [0..<m] (d, log @ [Pass i]))"
  have d'_eq: "fst (bubble_pass n i (d, log)) = d'"
    by (simp add: bubble_pass_def d'_def m_def)
  have inv: "length d = n" "mset d = mset data" "sorted_range d (n - i) n"
     "\<And>a b. a < n - i \<Longrightarrow> n - i \<le> b \<Longrightarrow> b < n \<Longrightarrow> d ! a \<le> d ! b"
    using assms(1) by (auto simp: passes_inv_def n_def)
  have m: "m < n" "Suc m = n - i" "n - Suc i = m" using assms(2) by (auto simp: m_def n_def)
  have p: "mset d' = mset d" "\<And>k. k \<le> m \<Longrightarrow> d' ! k \<le> d' ! m" "\<And>k. m < k \<Longrightarrow> d' ! k = d ! k"
    using pass_inv [of m d "log @ [Pass i]"] m inv(1) by (auto simp: d'_def)
  have len: "length d' = n" using inv(1) by (simp add: d'_def)
  have un: "unchanged_outside d d' 0 (Suc m)"
    using len inv(1) p(3) by (simp add: unchanged_outside_def)
  have elem: "\<exists>k'. k' \<le> m \<and> d' ! k = d ! k'" if k: "k \<le> m" for k
  proof -
    have "\<exists>k'. 0 \<le> k' \<and> k' < Suc m \<and> d' ! k = d ! k'"
      using k m(1) inv(1) by (intro range_elem [OF un p(1)]) auto
    then show ?thesis by (metis less_Suc_eq_le)
  qed
  have cross: "d' ! a \<le> d' ! b" if ab: "a \<le> m" "m < b" "b < n" for a b
  proof -
    obtain k' where "k' \<le> m" "d' ! a = d ! k'" using elem [OF ab(1)] by blast
    moreover have "d' ! b = d ! b" using p(3) ab by simp
    ultimately show ?thesis using inv(4) [of k' b] m ab by simp
  qed
  have srt: "sorted_range d' m n"
    unfolding sorted_range_def
  proof (intro allI impI)
    fix a b assume ab: "m \<le> a \<and> a \<le> b \<and> b < n"
    consider "a = b" | "a = m" "m < b" | "m < a" using ab by linarith
    then show "d' ! a \<le> d' ! b"
    proof cases
      case 1 then show ?thesis by simp
    next
      case 2 then show ?thesis using cross [of a b] ab by simp
    next
      case 3
      then have "d' ! a = d ! a" "d' ! b = d ! b" using p(3) ab by auto
      moreover have "d ! a \<le> d ! b" using inv(3) 3 ab m by (simp add: sorted_range_def)
      ultimately show ?thesis by simp
    qed
  qed
  have low: "\<forall>a b. a < m \<and> m \<le> b \<and> b < n \<longrightarrow> d' ! a \<le> d' ! b"
  proof (intro allI impI)
    fix a b assume ab: "a < m \<and> m \<le> b \<and> b < n"
    show "d' ! a \<le> d' ! b"
    proof (cases "b = m")
      case True then show ?thesis using p(2) [of a] ab by simp
    next
      case False then show ?thesis using cross [of a b] ab by simp
    qed
  qed
  have "mset d' = mset data" using p(1) inv(2) by simp
  then show ?thesis
    unfolding passes_inv_def n_def [symmetric] d'_eq using len srt low m by simp
qed

lemma passes_inv_fold:
  assumes "i \<le> length data"
  shows "passes_inv data i (fst (fold (bubble_pass (length data)) [0..<i] (data, log)))"
  using assms
proof (induction i)
  case 0
  show ?case by (simp add: passes_inv_def sorted_range_def)
next
  case (Suc i)
  define s where "s = fold (bubble_pass (length data)) [0..<i] (data, log)"
  have "passes_inv data i (fst s)" using Suc by (simp add: s_def)
  then have "passes_inv data (Suc i) (fst (bubble_pass (length data) i (fst s, snd s)))"
    using Suc.prems by (intro bubble_pass_inv) auto
  then show ?case by (simp add: s_def)
qed

lemma bubble_spec_correct:
  "mset (fst (bubble_spec data)) = mset data \<and> sorted (fst (bubble_spec data))"
proof -
  have inv: "passes_inv data (length data) (fst (bubble_spec data))"
    using passes_inv_fold [of "length data" data "[]"] by (simp add: bubble_spec_def)
  then have "sorted_range (fst (bubble_spec data)) 0 (length (fst (bubble_spec data)))"
    by (simp add: passes_inv_def)
  then have "sorted (fst (bubble_spec data))" by (rule sorted_range_all)
  then show ?thesis using inv by (simp add: passes_inv_def)
qed

lemma BubbleSort_sort_correct:
  "\<exists>d'. BubbleSort_sort data = Inr d' \<and> mset d' = mset data \<and> sorted d'"
  using bubble_spec_correct [of data]
  by (simp add: BubbleSort_sort_def BubbleSort_trace_refine)

lemma filter_pass_step:
  "filter is_Pass (snd (pass_step j s)) = filter is_Pass (snd s)"
  "length (filter is_Compare (snd (pass_step j s))) = Suc (length (filter is_Compare (snd s)))"
  by (cases s; simp add: pass_step_def)+

lemma filter_fold_pass_step:
  "filter is_Pass (snd (fold pass_step js s)) = filter is_Pass (snd s)"
  "length (filter is_Compare (snd (fold pass_step js s)))
     = length (filter is_Compare (snd s)) + length js"
  by (induction js arbitrary: s) (simp_all add: filter_pass_step)

lemma filter_bubble_pass:
  "filter is_Pass (snd (bubble_pass n i s)) = filter is_Pass (snd s) @ [Pass i]"
  "length (filter is_Compare (snd (bubble_pass n i s)))
     = length (filter is_Compare (snd s)) + (n - i - 1)"
  by (cases s; simp add: bubble_pass_def filter_fold_pass_step)+

lemma filter_fold_bubble_pass:
  "filter is_Pass (snd (fold (bubble_pass n) [0..<m] (data, []))) = map Pass [0..<m]"
  "length (filter is_Compare (snd (fold (bubble_pass n) [0..<m] (data, []))))
     = (\<Sum>i<m. n - i - 1)"
  by (induction m) (simp_all add: filter_bubble_pass)

lemma compared_append: "compared (xs @ ys) = compared xs @ compared ys"
  by (induction xs rule: compared.induct) auto

lemma log_ok_append: "log_ok p xs \<Longrightarrow> log_ok None ys \<Longrightarrow> log_ok p (xs @ ys)"
  by (induction p xs rule: log_ok.induct) auto

lemma swaps_on_greater_append:
  "swaps_on_greater xs \<Longrightarrow> swaps_on_greater ys \<Longrightarrow> swaps_on_greater (xs @ ys)"
  by (simp add: swaps_on_greater_def log_ok_append)

lemma swaps_on_greater_simps [simp]:
  "swaps_on_greater []" "swaps_on_greater [Pass i]"
  "swaps_on_greater [Compare j a b] \<longleftrightarrow> \<not> a > b"
  "swaps_on_greater [Compare j a b, Swap j] \<longleftrightarrow> a > b"
  by (simp_all add: swaps_on_greater_def)

lemma log_pass_step:
  "compared (snd (pass_step j s)) = compared (snd s) @ [j]"
  "swaps_on_greater (snd s) \<Longrightarrow> swaps_on_greater (snd (pass_step j s))"
  by (cases s; simp add: pass_step_def compared_append swaps_on_greater_append)+

lemma log_fold_pass_step:
  "compared (snd (fold pass_step js s)) = compared (snd s) @ js"
  "swaps_on_greater (snd s) \<Longrightarrow> swaps_on_greater (snd (fold pass_step js s))"
  by (induction js arbitrary: s) (simp_all add: log_pass_step)

lemma log_bubble_pass:
  "compared (snd (bubble_pass n i s)) = compared (snd s) @ [0..<n - i - 1]"
  "swaps_on_greater (snd s) \<Longrightarrow> swaps_on_greater (snd (bubble_pass n i s))"
  by (cases s; simp add: bubble_pass_def log_fold_pass_step compared_append swaps_on_greater_append)+

lemma log_fold_bubble_pass:
  "compared (snd (fold (bubble_pass n) [0..<m] (data, []))) = concat (map (\<lambda>i. [0..<n - i - 1]) [0..<m])"
  "swaps_on_greater (snd (fold (bubble_pass n) [0..<m] (data, [])))"
  by (induction m) (simp_all add: log_bubble_pass)

subsection \<open>Vectors of \<open>2 ^ 31\<close> elements and more\<close>

lemma swap_same [simp]: "swap data a a = data"
  by (simp add: swap_def)

lemma scan_step_pair:
  "scan_step p j (data, i) =
     (if data ! j < p then (swap data (nat (i + 1)) j, i + 1) else (data, i))"
  by (simp add: scan_step_def)

lemma scan_all_less:
  assumes "\<forall>k. l \<le> k \<and> k < l + n \<longrightarrow> data ! k < p"
  shows "fold (scan_step p) [l..<l + n] (data, int l - 1) = (data, int (l + n) - 1)"
  using assms
proof (induction n)
  case 0
  show ?case by simp
next
  case (Suc n)
  then have "fold (scan_step p) [l..<l + n] (data, int l - 1) = (data, int (l + n) - 1)" by simp
  moreover have "data ! (l + n) < p" using Suc.prems by simp
  ultimately show ?case by (simp add: scan_step_pair nat_add_distrib)
qed

lemma partition_spec_all_less:
  assumes "l \<le> h" "\<forall>k. l \<le> k \<and> k < h \<longrightarrow> data ! k < data ! h"
  shows "partition_spec data l h = (data, h)"
proof -
  obtain n where n: "l + n = h" using assms(1) by (metis le_add_diff_inverse)
  have "fold (scan_step (data ! h)) [l..<l + n] (data, int l - 1) = (data, int (l + n) - 1)"
    using assms(2) n by (intro scan_all_less) simp
  then show ?thesis using n by (simp add: partition_spec_def)
qed

lemma quicksort_Inr_low:
  assumes "quicksort data low high = Inr d'" "low <s high"
  shows "0 \<le> sint low"
proof -
  obtain r where "partition data low high = Inr r"
    using assms by (subst (asm) quicksort.simps) (auto split: sum.splits)
  then have "in_bounds data low" using assms(2) by (rule partition_Inr_bounds(1) [rotated])
  then show ?thesis by (simp add: in_bounds_def)
qed

lemma QuickSort_sort_overflow:
  assumes "length data = 2147483648" "\<forall>k. k < 2147483647 \<longrightarrow> data ! k < data ! 2147483647"
  shows "QuickSort_sort data = Inl OutOfBounds"
proof -
  have hi: "of_nat (size_sub (length data) 1) = (2147483647 :: cint)"
    using assms(1) by (simp add: size_sub_def)
  have s0: "sint (0 :: cint) = int 0" by simp
  have sh: "sint (2147483647 :: cint) = int 2147483647" by simp
  have lt: "(0 :: cint) <s 2147483647" by (simp add: word_sless_alt)
  have sp: "partition_spec data 0 2147483647 = (data, 2147483647)"
    using assms(2) by (intro partition_spec_all_less) auto
  have part: "partition data 0 2147483647 = Inr (data, 2147483647)"
    using partition_refine [OF s0 sh] assms(1) sp by simp
  have "\<exists>d'. quicksort data 0 (2147483647 - 1) = Inr d' \<and> unchanged_outside data d' 0 2147483647 \<and>
          mset d' = mset data \<and> sorted_range d' 0 2147483647"
    using assms(1) by (intro quicksort_correct) auto
  then obtain d2 where q1: "quicksort data 0 (2147483647 - 1) = Inr d2"
    and len: "length d2 = length data" by (auto simp: unchanged_outside_def)
  have wrap: "(2147483647 :: cint) + 1 <s 2147483647" "sint ((2147483647 :: cint) + 1) < 0"
    by (simp_all add: word_sless_alt)
  have q2: "quicksort d2 (2147483647 + 1) 2147483647 = Inl OutOfBounds"
  proof (cases "quicksort d2 (2147483647 + 1) 2147483647")
    case (Inl e)
    then show ?thesis by (cases e) simp
  next
    case (Inr d3)
    then have "0 \<le> sint ((2147483647 :: cint) + 1)" using wrap(1) by (rule quicksort_Inr_low)
    then show ?thesis using wrap(2) by simp
  qed
  have "quicksort data 0 2147483647 = Inl OutOfBounds"
    using lt part q1 q2 by (subst quicksort.simps) simp
  then show ?thesis using hi by (simp add: QuickSort_sort_def)
qed

lemma QuickSort_sort_noop:
  assumes "length data = 2147483649"
  shows "QuickSort_sort data = Inr data"
proof -
  have "of_nat (size_sub (length data) 1) = (2147483648 :: cint)"
    using assms by (simp add: size_sub_def)
  moreover have "\<not> (0 :: cint) <s 2147483648" by (simp add: word_sless_alt)
  ultimately show ?thesis by (simp add: QuickSort_sort_def quicksort.simps)
qed

lemma replicate_snoc_nth:
  "k < n \<Longrightarrow> (replicate n x @ [y]) ! k = x" "(replicate n x @ [y]) ! n = y"
  by (simp_all add: nth_append)

subsection \<open>The frame of quicksort\<close>

lemma quicksort_unchanged:
  "quicksort data low high = Inr data' \<Longrightarrow>
   length data' = length data \<and>
   (\<forall>k. k < length data \<and> (int k < sint low \<or> sint high < int k) \<longrightarrow> data' ! k = data ! k)"
proof (induction data low high arbitrary: data' rule: quicksort.induct)
  case (1 data low high)
  show ?case
  proof (cases "low <s high")
    case False
    then have "data' = data" using "1.prems" by (subst (asm) quicksort.simps) simp
    then show ?thesis by simp
  next
    case True
    obtain d1 pi where part: "partition data low high = Inr (d1, pi)"
      using "1.prems" True by (subst (asm) quicksort.simps) (auto split: sum.splits)
    obtain d2 where q1: "quicksort d1 low (pi - 1) = Inr d2"
      using "1.prems" True part by (subst (asm) quicksort.simps) (auto split: sum.splits)
    have q2: "quicksort d2 (pi + 1) high = Inr data'"
      using "1.prems" True part q1 by (subst (asm) quicksort.simps) simp
    note f = partition_Inr [OF True part]
    have lh: "idx low \<le> idx high" "idx high < length data"
      using f(1,2) True by (auto simp: idx_def word_sless_alt)
    note pp = partition_spec_props [OF lh f(3)]
    have ih1: "length d2 = length d1 \<and>
        (\<forall>k. k < length d1 \<and> (int k < sint low \<or> sint (pi - 1) < int k) \<longrightarrow> d2 ! k = d1 ! k)"
      using True part q1 by (intro "1.IH"(1)) auto
    have ih2: "length data' = length d2 \<and>
        (\<forall>k. k < length d2 \<and> (int k < sint (pi + 1) \<or> sint high < int k) \<longrightarrow> data' ! k = d2 ! k)"
      using True part q1 q2 by (intro "1.IH"(2)) auto
    have s1: "sint (pi - 1) = sint pi - 1" using sint_pred [of pi] f by simp
    have s2: "sint (pi + 1) = sint pi + 1"
    proof (rule ccontr)
      assume "sint (pi + 1) \<noteq> sint pi + 1"
      then have neg: "sint (pi + 1) < 0" using sint_succ_or_neg [of pi] f by auto
      then have "pi + 1 <s high" using f by (simp add: word_sless_alt)
      then have "0 \<le> sint (pi + 1)" using q2 by (intro quicksort_Inr_low)
      then show False using neg by simp
    qed
    have len: "length d1 = length data" "length d2 = length data" "length data' = length data"
      using pp(1) ih1 ih2 by auto
    have "data' ! k = data ! k"
      if k: "k < length data" "int k < sint low \<or> sint high < int k" for k
    proof -
      have o: "k < idx low \<or> idx high < k" using k(2) f(1) True
        by (auto simp: idx_def word_sless_alt)
      have "data' ! k = d2 ! k" using ih2 k len s2 f by auto
      also have "\<dots> = d1 ! k" using ih1 k len s1 f by auto
      also have "\<dots> = data ! k" using pp(8) o by blast
      finally show ?thesis .
    qed
    then show ?thesis using len by simp
  qed
qed

lemma quicksort_returns:
  assumes "0 \<le> sint low" "sint low \<le> sint high + 1" "sint high < int (length data)"
    "sint high < 2 ^ 31 - 1"
  shows "\<exists>d'. quicksort data low high = Inr d'"
proof -
  define l where "l = nat (sint low)"
  define e where "e = nat (sint high + 1)"
  have "sint low = int l" "sint high = int e - 1" "l \<le> e" "e \<le> length data" "e < 2 ^ 31"
    using assms by (auto simp: l_def e_def)
  then show ?thesis using quicksort_correct [of low l high e data] by blast
qed

lemma quicksort_from_min: "quicksort d (2147483647 + 1) 2147483647 = Inl OutOfBounds"
proof (cases "quicksort d (2147483647 + 1) 2147483647")
  case (Inl e)
  then show ?thesis by (cases e) simp
next
  case (Inr d3)
  have wrap: "(2147483647 :: cint) + 1 <s 2147483647" "sint ((2147483647 :: cint) + 1) < 0"
    by (simp_all add: word_sless_alt)
  have "0 \<le> sint ((2147483647 :: cint) + 1)" using Inr wrap(1) by (rule quicksort_Inr_low)
  then show ?thesis using wrap(2) by simp
qed

lemma quicksort_top_overflow:
  assumes "length data = 2147483648" "data ! 2147483646 < data ! 2147483647"
  shows "quicksort data 2147483646 2147483647 = Inl OutOfBounds"
proof -
  have sl: "sint (2147483646 :: cint) = int 2147483646" by simp
  have sh: "sint (2147483647 :: cint) = int 2147483647" by simp
  have lt: "(2147483646 :: cint) <s 2147483647" by (simp add: word_sless_alt)
  have "\<forall>k. (2147483646 :: nat) \<le> k \<and> k < 2147483647 \<longrightarrow> data ! k < data ! 2147483647"
  proof (intro allI impI)
    fix k :: nat
    assume "2147483646 \<le> k \<and> k < 2147483647"
    then have "k = 2147483646" by simp
    then show "data ! k < data ! 2147483647" using assms(2) by simp
  qed
  then have sp: "partition_spec data 2147483646 2147483647 = (data, 2147483647)"
    by (intro partition_spec_all_less) auto
  have part: "partition data 2147483646 2147483647 = Inr (data, 2147483647)"
    using partition_refine [OF sl sh] assms(1) sp by simp
  have q1: "quicksort data 2147483646 (2147483647 - 1) = Inr data"
    by (subst quicksort.simps) (simp add: word_sless_alt)
  show ?thesis
    using lt part q1 quicksort_from_min [of data] by (subst quicksort.simps) simp
qed

lemma partition_unchanged:
  assumes "0 \<le> sint low" "sint low \<le> sint high" "sint high < int (length data)"
  shows "\<exists>d p. partition data low high = Inr (d, p) \<and> length d = length data \<and>
           (\<forall>k. k < length data \<and> (int k < sint low \<or> sint high < int k) \<longrightarrow> d ! k = data ! k)"
proof -
  have eq: "sint low = int (idx low)" "sint high = int (idx high)"
    using assms by (auto simp: idx_def)
  have le: "idx low \<le> idx high" "idx high < length data" using assms by (auto simp: idx_def)
  obtain d p where sp: "partition_spec data (idx low) (idx high) = (d, p)"
    by (cases "partition_spec data (idx low) (idx high)")
  note pp = partition_spec_props [OF le sp]
  have part: "partition data low high = Inr (d, of_nat p)"
    using partition_refine [OF eq le] sp by simp
  have "d ! k = data ! k" if k: "int k < sint low \<or> sint high < int k" for k
  proof -
    have "k < idx low \<or> idx high < k" using k eq by auto
    then show ?thesis using pp(8) by blast
  qed
  then show ?thesis using part pp(1) by blast
qed

subsection \<open>The parse\<close>

lemma extract_int_shorter:
  assumes "extract_int s = Some (v, rest)"
  shows "length rest < length s"
proof -
  define s1 where "s1 = dropWhile isspace s"
  define s2 where "s2 = (if s1 \<noteq> [] \<and> (hd s1 = CHR ''-'' \<or> hd s1 = CHR ''+'') then tl s1 else s1)"
  have ds: "takeWhile isdigit s2 \<noteq> []" and rest: "rest = dropWhile isdigit s2"
    using assms by (auto simp: extract_int_def Let_def s1_def s2_def split: if_splits)
  have "length s2 = length (takeWhile isdigit s2) + length (dropWhile isdigit s2)"
    by (metis length_append takeWhile_dropWhile_id)
  then have "length rest < length s2" using ds rest by (cases "takeWhile isdigit s2") auto
  moreover have "length s2 \<le> length s1" by (simp add: s2_def)
  moreover have "length s1 \<le> length s" by (simp add: s1_def length_dropWhile_le)
  ultimately show ?thesis by simp
qed

termination parse_line
  by (relation "measure length") (auto simp: extract_int_shorter)

declare parse_line.simps [simp del]

termination tokens
proof (relation "measure length")
  show "wf (measure length)" by simp
next
  fix s s1 :: string
  assume s1: "s1 = dropWhile isspace s" "s1 \<noteq> []"
  then have "\<not> isspace (hd s1)" using hd_dropWhile [of isspace s] by simp
  then have "takeWhile (\<lambda>c. \<not> isspace c) s1 \<noteq> []" using s1(2) by (cases s1) auto
  moreover have "length s1 = length (takeWhile (\<lambda>c. \<not> isspace c) s1)
      + length (dropWhile (\<lambda>c. \<not> isspace c) s1)"
    by (metis length_append takeWhile_dropWhile_id)
  ultimately have "length (dropWhile (\<lambda>c. \<not> isspace c) s1) < length s1"
    by (cases "takeWhile (\<lambda>c. \<not> isspace c) s1") auto
  moreover have "length s1 \<le> length s" using s1(1) by (simp add: length_dropWhile_le)
  ultimately show "(dropWhile (\<lambda>c. \<not> isspace c) s1, s) \<in> measure length" by simp
qed

declare tokens.simps [simp del]

lemma space_not_digit: "isspace c \<Longrightarrow> \<not> isdigit c"
  by (auto simp: isspace_def isdigit_def)

lemma space_not_sign: "isspace c \<Longrightarrow> c \<noteq> CHR ''-'' \<and> c \<noteq> CHR ''+''"
  by (auto simp: isspace_def)

lemma digit_not_space: "isdigit c \<Longrightarrow> \<not> isspace c"
  using space_not_digit by blast

lemma extract_int_skip: "extract_int (dropWhile isspace s) = extract_int s"
  by (simp add: extract_int_def)

lemma while_append_stop:
  assumes "r = [] \<or> \<not> P (hd r)"
  shows "takeWhile P (xs @ r) = takeWhile P xs" "dropWhile P (xs @ r) = dropWhile P xs @ r"
proof -
  have r: "takeWhile P r = []" "dropWhile P r = r" using assms by (cases r; auto)+
  show "takeWhile P (xs @ r) = takeWhile P xs" by (induction xs) (simp_all add: r)
  show "dropWhile P (xs @ r) = dropWhile P xs @ r" by (induction xs) (simp_all add: r)
qed

lemma extract_int_unskipped:
  assumes "s \<noteq> []" "\<not> isspace (hd s)"
  shows "extract_int s =
     (if takeWhile isdigit (unsigned_part s) = [] \<or> \<not> fits_int (literal_value s) then None
      else Some (literal_value s, dropWhile isdigit (unsigned_part s)))"
proof -
  have "dropWhile isspace s = s" using assms by (cases s) auto
  then show ?thesis
    using assms(1) by (simp add: extract_int_def unsigned_part_def literal_value_def Let_def)
qed

lemma extract_int_token_append:
  assumes "t \<noteq> []" "\<not> isspace (hd t)" "r = [] \<or> isspace (hd r)"
  shows "extract_int (t @ r) =
     (case extract_int t of None \<Rightarrow> None | Some (v, rest) \<Rightarrow> Some (v, rest @ r))"
proof -
  have stop: "r = [] \<or> \<not> isdigit (hd r)" using assms(3) space_not_digit by blast
  have u: "unsigned_part (t @ r) = unsigned_part t @ r"
    using assms(1) by (simp add: unsigned_part_def)
  have tr: "t @ r \<noteq> []" "\<not> isspace (hd (t @ r))" "hd (t @ r) = hd t" using assms(1,2) by auto
  show ?thesis
    using extract_int_unskipped [OF tr(1,2)] extract_int_unskipped [OF assms(1,2)]
    by (simp add: u tr(3) literal_value_def while_append_stop [of r isdigit, OF stop])
qed

lemma valid_integer_extract:
  assumes "valid_integer t"
  shows "extract_int t = Some (token_value t, [])"
proof -
  have v: "unsigned_part t \<noteq> []" "list_all isdigit (unsigned_part t)" "fits_int (token_value t)"
    using assms by (auto simp: valid_integer_def)
  have ne: "t \<noteq> []" using v(1) by (auto simp: unsigned_part_def)
  have "hd t = CHR ''-'' \<or> hd t = CHR ''+'' \<or> isdigit (hd t)"
    using v(1,2) ne by (cases t) (auto simp: unsigned_part_def split: if_splits)
  then have ns: "\<not> isspace (hd t)" using space_not_sign digit_not_space by blast
  have tw: "takeWhile isdigit (unsigned_part t) = unsigned_part t"
    "dropWhile isdigit (unsigned_part t) = []"
    using v(2) by (simp_all add: list_all_iff)
  have lv: "literal_value t = token_value t"
    using ne by (simp add: tw token_value_def literal_value_def)
  have "extract_int t = Some (literal_value t, dropWhile isdigit (unsigned_part t))"
    using extract_int_unskipped [OF ne ns] v(1,3) by (simp add: tw(1) lv)
  then show ?thesis by (simp add: tw(2) lv)
qed

lemma tokens_split:
  assumes "dropWhile isspace s \<noteq> []"
  defines "t \<equiv> takeWhile (\<lambda>c. \<not> isspace c) (dropWhile isspace s)"
    and "r \<equiv> dropWhile (\<lambda>c. \<not> isspace c) (dropWhile isspace s)"
  shows "tokens s = t # tokens r" "t \<noteq> []" "\<not> isspace (hd t)" "r = [] \<or> isspace (hd r)"
    "extract_int s = extract_int (t @ r)"
proof -
  show "tokens s = t # tokens r" using assms(1) by (subst tokens.simps) (simp add: t_def r_def Let_def)
  have h: "\<not> isspace (hd (dropWhile isspace s))" using assms(1) hd_dropWhile [of isspace s] by simp
  then show "t \<noteq> []" using assms(1) by (cases "dropWhile isspace s") (auto simp: t_def)
  show "\<not> isspace (hd t)" using h assms(1) by (cases "dropWhile isspace s") (auto simp: t_def)
  show "r = [] \<or> isspace (hd r)"
    using hd_dropWhile [of "\<lambda>c. \<not> isspace c" "dropWhile isspace s"] by (auto simp: r_def)
  have "t @ r = dropWhile isspace s" by (simp add: t_def r_def)
  then show "extract_int s = extract_int (t @ r)" by (simp add: extract_int_skip)
qed

lemma parse_line_blank:
  assumes "dropWhile isspace s = []"
  shows "parse_line s = []" "tokens s = []"
proof -
  have "extract_int s = None" by (simp only: extract_int_def assms Let_def) simp
  then show "parse_line s = []" by (subst parse_line.simps) simp
  show "tokens s = []" using assms by (subst tokens.simps) simp
qed

lemma parse_line_tokens:
  "prefix (numeric_prefix s) (parse_line s) \<and>
   ((case dropWhile valid_integer (tokens s) of [] \<Rightarrow> True | t # ts \<Rightarrow> extract_int t = None)
      \<longrightarrow> parse_line s = numeric_prefix s)"
proof (induction s rule: tokens.induct)
  case (1 s)
  show ?case
  proof (cases "dropWhile isspace s = []")
    case True
    then show ?thesis using parse_line_blank [OF True] by (simp add: numeric_prefix_def)
  next
    case False
    define t where "t = takeWhile (\<lambda>c. \<not> isspace c) (dropWhile isspace s)"
    define r where "r = dropWhile (\<lambda>c. \<not> isspace c) (dropWhile isspace s)"
    note sp = tokens_split [OF False, folded t_def r_def]
    note app = extract_int_token_append [OF sp(2,3,4)]
    have ih: "prefix (numeric_prefix r) (parse_line r) \<and>
       ((case dropWhile valid_integer (tokens r) of [] \<Rightarrow> True | t # ts \<Rightarrow> extract_int t = None)
          \<longrightarrow> parse_line r = numeric_prefix r)"
      using "1.IH" [OF refl False] by (simp add: r_def)
    show ?thesis
    proof (cases "valid_integer t")
      case True
      have "extract_int s = Some (token_value t, r)"
        using sp(5) app valid_integer_extract [OF True] by simp
      then have p: "parse_line s = token_value t # parse_line r" by (subst parse_line.simps) simp
      have n: "numeric_prefix s = token_value t # numeric_prefix r"
        using True by (simp add: numeric_prefix_def sp(1))
      have d: "dropWhile valid_integer (tokens s) = dropWhile valid_integer (tokens r)"
        using True by (simp add: sp(1))
      show ?thesis using ih by (simp add: p n d)
    next
      case False
      have n: "numeric_prefix s = []" using False by (simp add: numeric_prefix_def sp(1))
      have d: "dropWhile valid_integer (tokens s) = t # tokens r" using False by (simp add: sp(1))
      have "parse_line s = []" if "extract_int t = None"
      proof -
        have "extract_int s = None" using sp(5) app that by simp
        then show ?thesis by (subst parse_line.simps) simp
      qed
      then show ?thesis by (simp add: n d)
    qed
  qed
qed

subsection \<open>The output\<close>

declare show_nat.simps [simp del]

lemma no_sorted_line: "\<not> sublist ''Sorted Data'' (prompts @ ''Invalid choice.'' @ [CHR 0x0A])"
  unfolding prompts_def by code_simp

lemma parse_312: "parse_line ''3 1 2'' = [3, 1, 2]"
  by (simp add: parse_line.simps extract_int_def isspace_def isdigit_def digits_value_def
      digit_value_def fits_int_def)

section \<open>The claims\<close>

text \<open>
  C1, permutation. \<^verbatim>\<open>BubbleSort::sort\<close> returns a permutation of its input for every
  input. \<^verbatim>\<open>QuickSort::sort\<close> does so for every input whose size is not \<open>2 ^ 31\<close> plus a
  multiple of \<open>2 ^ 32\<close>, so for every input of fewer than \<open>2 ^ 31\<close> elements: its indices
  are \<^verbatim>\<open>int\<close>, and for those sizes \<^verbatim>\<open>high\<close> is the greatest \<^verbatim>\<open>int\<close>.
\<close>

theorem sort_permutation:
  "(\<exists>ys. BubbleSort_sort data = Inr ys \<and> mset ys = mset data) \<and>
   (length data mod 2 ^ 32 \<noteq> 2 ^ 31 \<longrightarrow>
      (\<exists>ys. QuickSort_sort data = Inr ys \<and> mset ys = mset data))"
  using BubbleSort_sort_correct [of data] QuickSort_sort_permutes [of data] by blast

theorem sort_permutation_witness:
  "(\<exists>ys. BubbleSort_sort [5, 3, 8, 1, 9, 2] = Inr ys \<and> mset ys = mset [5, 3, 8, 1, 9, 2]) \<and>
   length [5, 3, 8, 1, 9, 2 :: int] mod 2 ^ 32 \<noteq> 2 ^ 31 \<and>
   (\<exists>ys. QuickSort_sort [5, 3, 8, 1, 9, 2] = Inr ys \<and> mset ys = mset [5, 3, 8, 1, 9, 2])"
  using sort_permutation [of "[5, 3, 8, 1, 9, 2]"] by simp

text \<open>
  On a vector of exactly \<open>2 ^ 31\<close> elements whose last element is the greatest, the first
  partition returns \<open>pi = high = 2 ^ 31 - 1\<close>, \<^verbatim>\<open>pi + 1\<close> overflows to \<open>- 2 ^ 31\<close>, and the
  second recursive call reads \<^verbatim>\<open>data[j]\<close> at that negative index: the run has no result.
\<close>

theorem sort_permutation_counterexample:
  "QuickSort_sort (replicate 2147483647 0 @ [1]) = Inl OutOfBounds"
proof (rule QuickSort_sort_overflow)
  show "length (replicate 2147483647 (0 :: int) @ [1]) = 2147483648"
    by (simp only: length_append length_replicate list.size)
  show "\<forall>k. k < 2147483647 \<longrightarrow>
      (replicate 2147483647 (0 :: int) @ [1]) ! k < (replicate 2147483647 0 @ [1]) ! 2147483647"
  proof (intro allI impI)
    fix k :: nat
    assume "k < 2147483647"
    then have a: "(replicate 2147483647 (0 :: int) @ [1]) ! k = 0" by (rule replicate_snoc_nth(1))
    have b: "(replicate 2147483647 (0 :: int) @ [1]) ! 2147483647 = 1" by (rule replicate_snoc_nth(2))
    show "(replicate 2147483647 (0 :: int) @ [1]) ! k < (replicate 2147483647 0 @ [1]) ! 2147483647"
      unfolding a b by simp
  qed
qed

text \<open>
  C2, order. In the result of \<^verbatim>\<open>BubbleSort::sort\<close>, for every input, and of
  \<^verbatim>\<open>QuickSort::sort\<close>, for every input of fewer than \<open>2 ^ 31\<close> elements, each element is at
  most its right neighbour.
\<close>

theorem sort_ordered:
  "(\<exists>ys. BubbleSort_sort data = Inr ys \<and> (\<forall>i. i + 1 < length ys \<longrightarrow> ys ! i \<le> ys ! (i + 1))) \<and>
   (length data < 2 ^ 31 \<longrightarrow>
      (\<exists>ys. QuickSort_sort data = Inr ys \<and> (\<forall>i. i + 1 < length ys \<longrightarrow> ys ! i \<le> ys ! (i + 1))))"
proof -
  have adj: "\<forall>i. i + 1 < length ys \<longrightarrow> ys ! i \<le> ys ! (i + 1)" if "sorted ys" for ys :: vec
    using that by (simp add: sorted_iff_nth_mono)
  show ?thesis
    using BubbleSort_sort_correct [of data] QuickSort_sort_correct [of data] adj by blast
qed

theorem sort_ordered_witness:
  "(\<exists>ys. BubbleSort_sort [4, 4, 1] = Inr ys \<and> ys ! 0 \<le> ys ! 1 \<and> ys ! 1 \<le> ys ! 2) \<and>
   length [4, 4, 1 :: int] < 2 ^ 31 \<and>
   (\<exists>ys. QuickSort_sort [4, 4, 1] = Inr ys \<and> ys ! 0 \<le> ys ! 1 \<and> ys ! 1 \<le> ys ! 2)"
proof -
  have b: "BubbleSort_sort [4, 4, 1] = Inr [1, 4, 4]"
    by (simp add: BubbleSort_sort_def BubbleSort_trace_def bubble_outer.simps bubble_inner.simps
        size_sub_def swap_def)
  have q: "QuickSort_sort [4, 4, 1] = Inr [1, 4, 4]"
    by (simp add: QuickSort_sort_def size_sub_def quicksort.simps partition_def
        partition_loop.simps in_bounds_def idx_def swap_def word_sless_alt)
  show ?thesis using sort_ordered [of "[4, 4, 1]"] b q by simp
qed

text \<open>
  A vector of \<open>2 ^ 31 + 1\<close> elements: \<^verbatim>\<open>data.size() - 1\<close> is \<open>2 ^ 31\<close>, the \<^verbatim>\<open>int\<close> \<^verbatim>\<open>high\<close> is
  \<open>- 2 ^ 31\<close>, the guard \<^verbatim>\<open>low < high\<close> fails and the vector is returned as it came.
\<close>

theorem sort_ordered_counterexample:
  "QuickSort_sort (1 # replicate 2147483648 0) = Inr (1 # replicate 2147483648 0) \<and>
   \<not> (1 # replicate 2147483648 0) ! 0 \<le> (1 # replicate 2147483648 (0 :: int)) ! 1"
proof
  have "length (1 # replicate 2147483648 (0 :: int)) = 2147483649"
    by (simp only: length_Cons length_replicate)
  then show "QuickSort_sort (1 # replicate 2147483648 0) = Inr (1 # replicate 2147483648 0)"
    by (rule QuickSort_sort_noop)
  have "(1 # replicate 2147483648 (0 :: int)) ! 1 = replicate 2147483648 0 ! 0"
    by (simp only: One_nat_def nth_Cons_Suc)
  also have "\<dots> = 0" by (rule nth_replicate) simp
  finally show "\<not> (1 # replicate 2147483648 0) ! 0 \<le> (1 # replicate 2147483648 (0 :: int)) ! 1"
    by (simp only: nth_Cons_0)
qed

text \<open>
  C3, equivalence. On every input of fewer than \<open>2 ^ 31\<close> elements the two sorts return
  the same vector.
\<close>

theorem sorts_agree: "length data < 2 ^ 31 \<Longrightarrow> BubbleSort_sort data = QuickSort_sort data"
proof -
  assume len: "length data < 2 ^ 31"
  obtain b where b: "BubbleSort_sort data = Inr b" "mset b = mset data" "sorted b"
    using BubbleSort_sort_correct [of data] by blast
  obtain q where q: "QuickSort_sort data = Inr q" "mset q = mset data" "sorted q"
    using QuickSort_sort_correct [OF len] by blast
  have "sort data = b" using b by (intro properties_for_sort) auto
  moreover have "sort data = q" using q by (intro properties_for_sort) auto
  ultimately show ?thesis using b q by simp
qed

theorem sorts_agree_witness:
  "length [5, 3, 8, 1, 9, 2 :: int] < 2 ^ 31 \<and>
   BubbleSort_sort [5, 3, 8, 1, 9, 2] = QuickSort_sort [5, 3, 8, 1, 9, 2] \<and>
   QuickSort_sort [5, 3, 8, 1, 9, 2] = Inr [1, 2, 3, 5, 8, 9]"
proof -
  have q: "QuickSort_sort [5, 3, 8, 1, 9, 2] = Inr [1, 2, 3, 5, 8, 9]"
    by (simp add: QuickSort_sort_def size_sub_def quicksort.simps partition_def
        partition_loop.simps in_bounds_def idx_def swap_def word_sless_alt)
  show ?thesis using sorts_agree [of "[5, 3, 8, 1, 9, 2]"] q by simp
qed

text \<open>
  On a vector of \<open>2 ^ 31 + 1\<close> elements \<^verbatim>\<open>QuickSort::sort\<close> returns its input while
  \<^verbatim>\<open>BubbleSort::sort\<close> sorts it.
\<close>

theorem sorts_agree_counterexample:
  "BubbleSort_sort (2 # replicate 2147483648 1) \<noteq> QuickSort_sort (2 # replicate 2147483648 1)"
proof
  assume eq: "BubbleSort_sort (2 # replicate 2147483648 1) = QuickSort_sort (2 # replicate 2147483648 1)"
  have "length (2 # replicate 2147483648 (1 :: int)) = 2147483649"
    by (simp only: length_Cons length_replicate)
  then have "QuickSort_sort (2 # replicate 2147483648 1) = Inr (2 # replicate 2147483648 1)"
    by (rule QuickSort_sort_noop)
  moreover obtain b where "BubbleSort_sort (2 # replicate 2147483648 1) = Inr b" "sorted b"
    using BubbleSort_sort_correct [of "2 # replicate 2147483648 1"] by blast
  ultimately have "sorted (2 # replicate 2147483648 (1 :: int))" using eq by simp
  then have "\<forall>y \<in> set (replicate 2147483648 (1 :: int)). 2 \<le> y" by (metis sorted_simps(2))
  moreover have "(1 :: int) \<in> set (replicate 2147483648 1)"
    by (simp only: set_replicate_conv_if) simp
  ultimately show False by fastforce
qed

text \<open>
  C4, dispatch. With \<^verbatim>\<open>choice\<close> 1 the run is \<^verbatim>\<open>BubbleSort::sort\<close> on the parsed sequence,
  followed by the report of its result; with 2 it is \<^verbatim>\<open>QuickSort::sort\<close> on the parsed
  sequence, followed by the report of its result. With any other value the run writes
  the prompts and \<^verbatim>\<open>Invalid choice.\<close>, exits with status 1 and leaves the parsed sequence
  as it was read; no \<^verbatim>\<open>Sorted Data\<close> appears in its output.
\<close>

theorem main_dispatch:
  "(\<exists>result. BubbleSort_sort (parse_line line) = Inr result \<and>
      main line 1 duration = Inr (report result duration)) \<and>
   main line 2 duration
     = (case QuickSort_sort (parse_line line) of
          Inl e \<Rightarrow> Inl e
        | Inr result \<Rightarrow> Inr (report result duration)) \<and>
   (choice \<noteq> 1 \<and> choice \<noteq> 2 \<longrightarrow>
      main line choice duration
        = Inr \<lparr>stdout = prompts @ ''Invalid choice.'' @ [CHR 0x0A], exit_status = 1,
               final_data = parse_line line\<rparr> \<and>
      \<not> sublist ''Sorted Data'' (prompts @ ''Invalid choice.'' @ [CHR 0x0A]))"
proof (intro conjI impI)
  obtain result where "BubbleSort_sort (parse_line line) = Inr result"
    using BubbleSort_sort_correct [of "parse_line line"] by blast
  then show "\<exists>result. BubbleSort_sort (parse_line line) = Inr result \<and>
      main line 1 duration = Inr (report result duration)"
    by (simp add: main_def)
  show "main line 2 duration
     = (case QuickSort_sort (parse_line line) of
          Inl e \<Rightarrow> Inl e
        | Inr result \<Rightarrow> Inr (report result duration))"
    by (simp add: main_def)
  show "main line choice duration
        = Inr \<lparr>stdout = prompts @ ''Invalid choice.'' @ [CHR 0x0A], exit_status = 1,
               final_data = parse_line line\<rparr>"
    if "choice \<noteq> 1 \<and> choice \<noteq> 2"
    using that by (simp add: main_def)
  show "\<not> sublist ''Sorted Data'' (prompts @ ''Invalid choice.'' @ [CHR 0x0A])"
    by (rule no_sorted_line)
qed

theorem main_dispatch_witness:
  "main ''3 1 2'' 1 42
     = Inr \<lparr>stdout = prompts @ ''Sorted Data: 1 2 3 '' @ [CHR 0x0A] @
                       ''Time taken: 42 microseconds'' @ [CHR 0x0A],
            exit_status = 0, final_data = [1, 2, 3]\<rparr> \<and>
   main ''3 1 2'' 2 42
     = Inr \<lparr>stdout = prompts @ ''Sorted Data: 1 2 3 '' @ [CHR 0x0A] @
                       ''Time taken: 42 microseconds'' @ [CHR 0x0A],
            exit_status = 0, final_data = [1, 2, 3]\<rparr> \<and>
   (3 :: int) \<noteq> 1 \<and> (3 :: int) \<noteq> 2 \<and>
   main ''3 1 2'' 3 42
     = Inr \<lparr>stdout = prompts @ ''Invalid choice.'' @ [CHR 0x0A], exit_status = 1,
            final_data = [3, 1, 2]\<rparr>"
proof -
  have b: "BubbleSort_sort [3, 1, 2] = Inr [1, 2, 3]"
    by (simp add: BubbleSort_sort_def BubbleSort_trace_def bubble_outer.simps bubble_inner.simps
        size_sub_def swap_def)
  have q: "QuickSort_sort [3, 1, 2] = Inr [1, 2, 3]"
    by (simp add: QuickSort_sort_def size_sub_def quicksort.simps partition_def
        partition_loop.simps in_bounds_def idx_def swap_def word_sless_alt)
  have r: "report [1, 2, 3] 42
     = \<lparr>stdout = prompts @ ''Sorted Data: 1 2 3 '' @ [CHR 0x0A] @
                       ''Time taken: 42 microseconds'' @ [CHR 0x0A],
            exit_status = 0, final_data = [1, 2, 3]\<rparr>"
    by (simp add: report_def print_data_def show_int_def show_nat.simps digit_char_def)
  show ?thesis using main_dispatch [of "''3 1 2''" 42 3] by (simp add: parse_312 b q r)
qed

text \<open>
  C5, the partition step. For bounds \<open>0 \<le> low \<le> high < size\<close>, \<^verbatim>\<open>QuickSort::partition\<close>
  returns what the specification's wording computes (\<open>partition_spec\<close>: the pivot is the
  element at \<open>high\<close>, \<open>i\<close> starts at \<open>low - 1\<close>, the scan of \<open>low..high - 1\<close> swaps each
  element less than the pivot to position \<open>i + 1\<close> and advances \<open>i\<close>, the pivot is
  swapped to \<open>i + 1\<close> and \<open>i + 1\<close> is returned), and the returned index, between \<open>low\<close> and
  \<open>high\<close>, is where the pivot ends.
\<close>

theorem partition_step:
  assumes "0 \<le> sint low" "sint low \<le> sint high" "sint high < int (length data)"
  shows "partition data low high
           = Inr (fst (partition_spec data (idx low) (idx high)),
                  of_nat (snd (partition_spec data (idx low) (idx high)))) \<and>
         idx low \<le> snd (partition_spec data (idx low) (idx high)) \<and>
         snd (partition_spec data (idx low) (idx high)) \<le> idx high \<and>
         fst (partition_spec data (idx low) (idx high)) ! snd (partition_spec data (idx low) (idx high))
           = data ! idx high"
proof -
  have eq: "sint low = int (idx low)" "sint high = int (idx high)"
    using assms by (auto simp: idx_def)
  have le: "idx low \<le> idx high" "idx high < length data" using assms by (auto simp: idx_def)
  obtain d p where sp: "partition_spec data (idx low) (idx high) = (d, p)"
    by (cases "partition_spec data (idx low) (idx high)")
  note pp = partition_spec_props [OF le sp]
  show ?thesis using partition_refine [OF eq le] pp(3,4,5) sp by simp
qed

theorem partition_step_witness:
  "0 \<le> sint (0 :: cint) \<and> sint (0 :: cint) \<le> sint (5 :: cint) \<and>
   sint (5 :: cint) < int (length [5, 3, 8, 1, 9, 2 :: int]) \<and>
   partition [5, 3, 8, 1, 9, 2] 0 5 = Inr ([1, 2, 8, 5, 9, 3], 1) \<and>
   partition_spec [5, 3, 8, 1, 9, 2] 0 5 = ([1, 2, 8, 5, 9, 3], 1)"
proof -
  have "[0..<5] = [0, 1, 2, 3, 4]" by (simp add: upt_rec)
  then have sp: "partition_spec [5, 3, 8, 1, 9, 2] 0 5 = ([1, 2, 8, 5, 9, 3], 1)"
    by (simp add: partition_spec_def scan_step_pair swap_def)
  have i: "idx (0 :: cint) = 0" "idx (5 :: cint) = 5" by (simp_all add: idx_def)
  show ?thesis using partition_step [of 0 5 "[5, 3, 8, 1, 9, 2]"] sp by (simp add: i)
qed

text \<open>
  C6, the passes. The run of \<^verbatim>\<open>BubbleSort::sort\<close>, with its log, is what the
  specification's wording computes (\<open>bubble_spec\<close>: for each \<open>i\<close> from \<open>0\<close> to \<open>n - 1\<close> a
  pass over the pairs at \<open>j\<close>, \<open>j + 1\<close> for \<open>j\<close> in \<open>[0, n - i - 1)\<close>, swapping exactly
  when the left element is greater). Whatever the input, the log holds the \<open>n\<close> passes
  \<open>0, \<dots>, n - 1\<close> in order, the comparisons of pass \<open>i\<close> are those at \<open>0, \<dots>, n - i - 2\<close>,
  and a swap is logged exactly after a comparison whose left value is greater.
\<close>

theorem bubble_passes:
  "BubbleSort_trace data = Inr (bubble_spec data) \<and>
   filter is_Pass (snd (bubble_spec data)) = map Pass [0..<length data] \<and>
   compared (snd (bubble_spec data))
     = concat (map (\<lambda>i. [0..<length data - i - 1]) [0..<length data]) \<and>
   swaps_on_greater (snd (bubble_spec data))"
  by (simp add: BubbleSort_trace_refine bubble_spec_def filter_fold_bubble_pass log_fold_bubble_pass)

theorem bubble_passes_witness:
  "BubbleSort_trace [1, 2, 2] =
     Inr ([1, 2, 2], [Pass 0, Compare 0 1 2, Compare 1 2 2, Pass 1, Compare 0 1 2, Pass 2]) \<and>
   bubble_spec [1, 2, 2] =
     ([1, 2, 2], [Pass 0, Compare 0 1 2, Compare 1 2 2, Pass 1, Compare 0 1 2, Pass 2])"
proof -
  have "BubbleSort_trace [1, 2, 2] =
     Inr ([1, 2, 2], [Pass 0, Compare 0 1 2, Compare 1 2 2, Pass 1, Compare 0 1 2, Pass 2])"
    by (simp add: BubbleSort_trace_def bubble_outer.simps bubble_inner.simps size_sub_def swap_def)
  then show ?thesis using bubble_passes [of "[1, 2, 2]"] by simp
qed

text \<open>
  C7, boundaries. Both sorts return the empty vector for the empty vector and leave a
  vector of one element as it is.
\<close>

theorem sort_boundaries:
  "BubbleSort_sort [] = Inr [] \<and> QuickSort_sort [] = Inr [] \<and>
   BubbleSort_sort [x] = Inr [x] \<and> QuickSort_sort [x] = Inr [x]"
proof (intro conjI)
  show "BubbleSort_sort [] = Inr []" "BubbleSort_sort [x] = Inr [x]"
    by (simp_all add: BubbleSort_sort_def BubbleSort_trace_def bubble_outer.simps
        bubble_inner.simps size_sub_def)
  show "QuickSort_sort [] = Inr []" "QuickSort_sort [x] = Inr [x]"
    by (simp_all add: QuickSort_sort_def size_sub_def quicksort.simps word_sless_alt)
qed

text \<open>
  C8, the parse. The runner extracts integers one after another: white space, an
  optional sign, decimal digits, a value that fits \<^verbatim>\<open>int\<close>; it stops where that fails,
  drops the rest of the line and reports no error. The parsed sequence always starts
  with the values of the longest prefix of valid integer tokens, and it is exactly
  that prefix when the first token that is not a valid integer does not itself begin
  with an integer that can be extracted. The empty line parses to the empty sequence,
  which both sorts return empty.
\<close>

theorem parse_stops:
  "prefix (numeric_prefix line) (parse_line line) \<and>
   ((case dropWhile valid_integer (tokens line) of [] \<Rightarrow> True | t # ts \<Rightarrow> extract_int t = None)
      \<longrightarrow> parse_line line = numeric_prefix line) \<and>
   (\<exists>out. main line 1 duration = Inr out \<and> exit_status out = 0) \<and>
   parse_line [] = [] \<and>
   BubbleSort_sort (parse_line []) = Inr [] \<and> QuickSort_sort (parse_line []) = Inr []"
proof (intro conjI)
  show "prefix (numeric_prefix line) (parse_line line)"
    "(case dropWhile valid_integer (tokens line) of [] \<Rightarrow> True | t # ts \<Rightarrow> extract_int t = None)
      \<longrightarrow> parse_line line = numeric_prefix line"
    using parse_line_tokens [of line] by auto
  obtain result where "BubbleSort_sort (parse_line line) = Inr result"
    using BubbleSort_sort_correct [of "parse_line line"] by blast
  then show "\<exists>out. main line 1 duration = Inr out \<and> exit_status out = 0"
    by (simp add: main_def report_def)
  show e: "parse_line [] = []" by (rule parse_line_blank) simp
  show "BubbleSort_sort (parse_line []) = Inr []"
    by (simp add: e BubbleSort_sort_def BubbleSort_trace_def bubble_outer.simps)
  show "QuickSort_sort (parse_line []) = Inr []"
    by (simp add: e QuickSort_sort_def size_sub_def quicksort.simps word_sless_alt)
qed

theorem parse_stops_witness:
  "tokens ''5 -3 x7 7'' = [''5'', ''-3'', ''x7'', ''7''] \<and>
   dropWhile valid_integer (tokens ''5 -3 x7 7'') = [''x7'', ''7''] \<and>
   extract_int ''x7'' = None \<and>
   parse_line ''5 -3 x7 7'' = [5, - 3] \<and> numeric_prefix ''5 -3 x7 7'' = [5, - 3]"
proof -
  have t: "tokens ''5 -3 x7 7'' = [''5'', ''-3'', ''x7'', ''7'']"
    by (simp add: tokens.simps isspace_def)
  have d: "dropWhile valid_integer [''5'', ''-3'', ''x7'', ''7''] = [''x7'', ''7'']"
    by (simp add: valid_integer_def unsigned_part_def token_value_def isdigit_def
        digits_value_def digit_value_def fits_int_def)
  have x: "extract_int ''x7'' = None"
    by (simp add: extract_int_def isspace_def isdigit_def)
  have n: "numeric_prefix ''5 -3 x7 7'' = [5, - 3]"
    by (simp add: numeric_prefix_def t valid_integer_def unsigned_part_def token_value_def
        isdigit_def digits_value_def digit_value_def fits_int_def)
  have d': "dropWhile valid_integer (tokens ''5 -3 x7 7'') = [''x7'', ''7'']"
    by (simp only: t d)
  have "case dropWhile valid_integer (tokens ''5 -3 x7 7'') of
          [] \<Rightarrow> True | t # ts \<Rightarrow> extract_int t = None"
    unfolding d' by (simp add: x)
  then have p: "parse_line ''5 -3 x7 7'' = numeric_prefix ''5 -3 x7 7''"
    using parse_stops [of "''5 -3 x7 7''" 0] by blast
  show ?thesis
  proof (intro conjI)
    show "tokens ''5 -3 x7 7'' = [''5'', ''-3'', ''x7'', ''7'']" by (rule t)
    show "dropWhile valid_integer (tokens ''5 -3 x7 7'') = [''x7'', ''7'']" by (rule d')
    show "extract_int ''x7'' = None" by (rule x)
    show "parse_line ''5 -3 x7 7'' = [5, - 3]" using p n by simp
    show "numeric_prefix ''5 -3 x7 7'' = [5, - 3]" by (rule n)
  qed
qed

text \<open>
  The token \<^verbatim>\<open>12abc\<close> is not a valid integer, yet the extraction reads \<open>12\<close> from it and
  stops only at \<^verbatim>\<open>abc\<close>.
\<close>

theorem parse_stops_counterexample:
  "parse_line ''5 12abc 7'' = [5, 12] \<and> numeric_prefix ''5 12abc 7'' = [5]"
proof
  show "parse_line ''5 12abc 7'' = [5, 12]"
    by (simp add: parse_line.simps extract_int_def isspace_def isdigit_def digits_value_def
        digit_value_def fits_int_def)
  show "numeric_prefix ''5 12abc 7'' = [5]"
    by (simp add: numeric_prefix_def tokens.simps isspace_def valid_integer_def unsigned_part_def
        token_value_def isdigit_def digits_value_def digit_value_def fits_int_def)
qed

text \<open>
  C9, accesses. No run of \<^verbatim>\<open>BubbleSort::sort\<close> reads or writes outside the vector. No
  run of \<^verbatim>\<open>QuickSort::sort\<close> does on a vector whose size is not \<open>2 ^ 31\<close> plus a multiple
  of \<open>2 ^ 32\<close>, nor does a call of \<^verbatim>\<open>quicksort\<close> with bounds inside the vector and \<^verbatim>\<open>high\<close>
  less than the greatest \<^verbatim>\<open>int\<close>, nor a call of \<^verbatim>\<open>partition\<close> with
  \<open>0 \<le> low \<le> high < size\<close>. On the empty vector
  \<^verbatim>\<open>data.size() - 1\<close> wraps to \<open>2 ^ 64 - 1\<close>, which converts to \<open>high = - 1\<close>; the guard
  \<^verbatim>\<open>low < high\<close> fails and nothing is accessed.
\<close>

theorem accesses_in_bounds:
  "(\<exists>ys. BubbleSort_sort data = Inr ys) \<and>
   (length data mod 2 ^ 32 \<noteq> 2 ^ 31 \<longrightarrow> (\<exists>ys. QuickSort_sort data = Inr ys)) \<and>
   (0 \<le> sint low \<and> sint low \<le> sint high + 1 \<and> sint high < int (length data) \<and>
    sint high < 2 ^ 31 - 1 \<longrightarrow> (\<exists>ys. quicksort data low high = Inr ys)) \<and>
   (0 \<le> sint low \<and> sint low \<le> sint high \<and> sint high < int (length data)
      \<longrightarrow> (\<exists>r. partition data low high = Inr r)) \<and>
   size_sub (length ([] :: vec)) 1 = 2 ^ 64 - 1 \<and>
   of_nat (size_sub (length ([] :: vec)) 1) = (- 1 :: cint) \<and>
   \<not> (0 :: cint) <s - 1 \<and>
   QuickSort_sort [] = Inr []"
proof (intro conjI impI)
  show "\<exists>ys. BubbleSort_sort data = Inr ys" using BubbleSort_sort_correct [of data] by blast
  show "\<exists>ys. QuickSort_sort data = Inr ys" if "length data mod 2 ^ 32 \<noteq> 2 ^ 31"
    using QuickSort_sort_permutes [OF that] by blast
  show "\<exists>ys. quicksort data low high = Inr ys"
    if "0 \<le> sint low \<and> sint low \<le> sint high + 1 \<and> sint high < int (length data) \<and>
        sint high < 2 ^ 31 - 1"
    using that by (intro quicksort_returns) auto
  show "\<exists>r. partition data low high = Inr r"
    if a: "0 \<le> sint low \<and> sint low \<le> sint high \<and> sint high < int (length data)"
  proof -
    have "sint low = int (idx low)" "sint high = int (idx high)" "idx low \<le> idx high"
      "idx high < length data"
      using a by (auto simp: idx_def)
    then show ?thesis using partition_refine [of low "idx low" high "idx high" data] by blast
  qed
  show "size_sub (length ([] :: vec)) 1 = 2 ^ 64 - 1" by (simp add: size_sub_def)
  show "of_nat (size_sub (length ([] :: vec)) 1) = (- 1 :: cint)" by (simp add: size_sub_def)
  show "\<not> (0 :: cint) <s - 1" by (simp add: word_sless_alt)
  show "QuickSort_sort [] = Inr []"
    by (simp add: QuickSort_sort_def size_sub_def quicksort.simps word_sless_alt)
qed

theorem accesses_in_bounds_witness:
  "BubbleSort_sort [5, 3, 8, 1, 9, 2] = Inr [1, 2, 3, 5, 8, 9] \<and>
   length [5, 3, 8, 1, 9, 2 :: int] mod 2 ^ 32 \<noteq> 2 ^ 31 \<and>
   QuickSort_sort [5, 3, 8, 1, 9, 2] = Inr [1, 2, 3, 5, 8, 9] \<and>
   0 \<le> sint (2 :: cint) \<and> sint (2 :: cint) \<le> sint (4 :: cint) \<and>
   sint (4 :: cint) < int (length [5, 3, 8, 1, 9, 2 :: int]) \<and> sint (4 :: cint) < 2 ^ 31 - 1 \<and>
   (\<exists>ys. quicksort [5, 3, 8, 1, 9, 2] 2 4 = Inr ys) \<and>
   (\<exists>r. partition [5, 3, 8, 1, 9, 2] 2 4 = Inr r)"
proof -
  have b: "BubbleSort_sort [5, 3, 8, 1, 9, 2] = Inr [1, 2, 3, 5, 8, 9]"
    by (simp add: BubbleSort_sort_def BubbleSort_trace_def bubble_outer.simps bubble_inner.simps
        size_sub_def swap_def)
  have q: "QuickSort_sort [5, 3, 8, 1, 9, 2] = Inr [1, 2, 3, 5, 8, 9]"
    by (simp add: QuickSort_sort_def size_sub_def quicksort.simps partition_def
        partition_loop.simps in_bounds_def idx_def swap_def word_sless_alt)
  show ?thesis using accesses_in_bounds [of "[5, 3, 8, 1, 9, 2]" 2 4] b q by simp
qed

text \<open>
  The same overflow as for C1, on another vector of \<open>2 ^ 31\<close> elements: the second
  recursive call reads \<^verbatim>\<open>data[j]\<close> at \<open>j = - 2 ^ 31\<close>.
\<close>

theorem accesses_in_bounds_counterexample:
  "QuickSort_sort (replicate 2147483647 (- 1) @ [0]) = Inl OutOfBounds"
proof (rule QuickSort_sort_overflow)
  show "length (replicate 2147483647 (- 1 :: int) @ [0]) = 2147483648"
    by (simp only: length_append length_replicate list.size)
  show "\<forall>k. k < 2147483647 \<longrightarrow>
      (replicate 2147483647 (- 1 :: int) @ [0]) ! k < (replicate 2147483647 (- 1) @ [0]) ! 2147483647"
  proof (intro allI impI)
    fix k :: nat
    assume "k < 2147483647"
    then have a: "(replicate 2147483647 (- 1 :: int) @ [0]) ! k = - 1" by (rule replicate_snoc_nth(1))
    have b: "(replicate 2147483647 (- 1 :: int) @ [0]) ! 2147483647 = 0" by (rule replicate_snoc_nth(2))
    show "(replicate 2147483647 (- 1 :: int) @ [0]) ! k < (replicate 2147483647 (- 1) @ [0]) ! 2147483647"
      unfolding a b by simp
  qed
qed

text \<open>
  C10, frame. A call \<^verbatim>\<open>quicksort(data, low, high)\<close> that returns leaves the size of the
  vector and every element at a position outside \<open>[low, high]\<close> as they were. With
  \<open>low \<ge> high\<close> the call returns the vector as it came. With \<open>0 \<le> low \<le> high + 1 \<le> size\<close>
  and \<^verbatim>\<open>high\<close> less than the greatest \<^verbatim>\<open>int\<close> the call returns, and so does its partition
  step for \<open>0 \<le> low \<le> high < size\<close>, which changes nothing outside \<open>[low, high]\<close> either.
  For \<^verbatim>\<open>high\<close> the greatest \<^verbatim>\<open>int\<close> nothing is promised: \<^verbatim>\<open>pi + 1\<close> can overflow.
\<close>

theorem quicksort_frame:
  "(quicksort data low high = Inr data' \<longrightarrow>
      length data' = length data \<and>
      (\<forall>k. k < length data \<and> (int k < sint low \<or> sint high < int k) \<longrightarrow> data' ! k = data ! k)) \<and>
   (\<not> low <s high \<longrightarrow> quicksort data low high = Inr data) \<and>
   (0 \<le> sint low \<and> sint low \<le> sint high + 1 \<and> sint high < int (length data) \<and>
    sint high < 2 ^ 31 - 1 \<longrightarrow>
      (\<exists>d. quicksort data low high = Inr d \<and> length d = length data \<and>
         (\<forall>k. k < length data \<and> (int k < sint low \<or> sint high < int k) \<longrightarrow> d ! k = data ! k))) \<and>
   (0 \<le> sint low \<and> sint low \<le> sint high \<and> sint high < int (length data) \<longrightarrow>
      (\<exists>d p. partition data low high = Inr (d, p) \<and> length d = length data \<and>
         (\<forall>k. k < length data \<and> (int k < sint low \<or> sint high < int k) \<longrightarrow> d ! k = data ! k)))"
proof (intro conjI impI)
  show "length data' = length data" if "quicksort data low high = Inr data'"
    using quicksort_unchanged [OF that] by blast
  show "\<forall>k. k < length data \<and> (int k < sint low \<or> sint high < int k) \<longrightarrow> data' ! k = data ! k"
    if "quicksort data low high = Inr data'"
    using quicksort_unchanged [OF that] by blast
  show "quicksort data low high = Inr data" if "\<not> low <s high"
    using that by (subst quicksort.simps) simp
  show "\<exists>d. quicksort data low high = Inr d \<and> length d = length data \<and>
         (\<forall>k. k < length data \<and> (int k < sint low \<or> sint high < int k) \<longrightarrow> d ! k = data ! k)"
    if a: "0 \<le> sint low \<and> sint low \<le> sint high + 1 \<and> sint high < int (length data) \<and>
        sint high < 2 ^ 31 - 1"
  proof -
    obtain d where d: "quicksort data low high = Inr d"
      using quicksort_returns [of low high data] a by blast
    then show ?thesis using quicksort_unchanged [OF d] by blast
  qed
  show "\<exists>d p. partition data low high = Inr (d, p) \<and> length d = length data \<and>
         (\<forall>k. k < length data \<and> (int k < sint low \<or> sint high < int k) \<longrightarrow> d ! k = data ! k)"
    if "0 \<le> sint low \<and> sint low \<le> sint high \<and> sint high < int (length data)"
    using that by (intro partition_unchanged) auto
qed

theorem quicksort_frame_witness:
  "quicksort [7, 3, 1, 2, 0] 1 3 = Inr [7, 1, 2, 3, 0] \<and>
   length [7, 1, 2, 3, 0 :: int] = length [7, 3, 1, 2, 0 :: int] \<and>
   [7, 1, 2, 3, 0 :: int] ! 0 = [7, 3, 1, 2, 0] ! 0 \<and> [7, 1, 2, 3, 0 :: int] ! 4 = [7, 3, 1, 2, 0] ! 4 \<and>
   0 \<le> sint (1 :: cint) \<and> sint (1 :: cint) \<le> sint (3 :: cint) + 1 \<and>
   sint (1 :: cint) \<le> sint (3 :: cint) \<and>
   sint (3 :: cint) < int (length [7, 3, 1, 2, 0 :: int]) \<and> sint (3 :: cint) < 2 ^ 31 - 1 \<and>
   partition [7, 3, 1, 2, 0] 1 3 = Inr ([7, 1, 2, 3, 0], 2) \<and>
   \<not> (3 :: cint) <s 1 \<and> quicksort [7, 3, 1, 2, 0] 3 1 = Inr [7, 3, 1, 2, 0]"
proof -
  have q: "quicksort [7, 3, 1, 2, 0] 1 3 = Inr [7, 1, 2, 3, 0]"
    by (simp add: quicksort.simps partition_def partition_loop.simps in_bounds_def idx_def
        swap_def word_sless_alt)
  have p: "partition [7, 3, 1, 2, 0] 1 3 = Inr ([7, 1, 2, 3, 0], 2)"
    by (simp add: partition_def partition_loop.simps in_bounds_def idx_def swap_def
        word_sless_alt)
  have n: "\<not> (3 :: cint) <s 1" by (simp add: word_sless_alt)
  show ?thesis
    using quicksort_frame [of "[7, 3, 1, 2, 0]" 1 3 "[7, 1, 2, 3, 0]"]
      quicksort_frame [of "[7, 3, 1, 2, 0]" 3 1 "[7, 3, 1, 2, 0]"] q p n
    by simp
qed

text \<open>
  On a vector of \<open>2 ^ 31\<close> elements the bounds \<open>low = 2 ^ 31 - 2\<close>, \<open>high = 2 ^ 31 - 1\<close> lie inside
  the vector. With the last element the greater of the two, the partition step returns
  \<open>pi = high\<close>, \<^verbatim>\<open>pi + 1\<close> overflows to \<open>- 2 ^ 31\<close> and the second recursive call reads
  \<^verbatim>\<open>data[j]\<close> at that index: the call has no result.
\<close>

theorem quicksort_frame_counterexample:
  "quicksort (replicate 2147483647 0 @ [1]) 2147483646 2147483647 = Inl OutOfBounds"
proof (rule quicksort_top_overflow)
  show "length (replicate 2147483647 (0 :: int) @ [1]) = 2147483648"
    by (simp only: length_append length_replicate list.size)
  have a: "(replicate 2147483647 (0 :: int) @ [1]) ! 2147483646 = 0"
    by (rule replicate_snoc_nth(1)) simp
  have b: "(replicate 2147483647 (0 :: int) @ [1]) ! 2147483647 = 1"
    by (rule replicate_snoc_nth(2))
  show "(replicate 2147483647 (0 :: int) @ [1]) ! 2147483646
      < (replicate 2147483647 0 @ [1]) ! 2147483647"
    unfolding a b by simp
qed

end
